theory Spec2Isabelle
  imports Complex_Main "HOL-Library.Product_Lexorder" "HOL-Library.Multiset"
begin

section \<open>Data model\<close>

text \<open>
  The notebook \<^verbatim>\<open>7.geo-fencing-service.ipynb\<close> defines four functions,
  \<^verbatim>\<open>clusters\<close>, \<^verbatim>\<open>regions\<close>, \<^verbatim>\<open>in_hull\<close> and \<^verbatim>\<open>location_alert\<close>.
  They never compute with a coordinate themselves: every numeric step is delegated to a
  routine of a third-party package (the Cassandra driver, scikit-learn's DBSCAN, SciPy's
  ConvexHull and Delaunay). The embedding therefore keeps the coordinate type \<open>'c\<close> and
  the type \<open>'t\<close> of a triangulation object open, and passes the third-party routines
  in as a record of functions. An exception is a value of type \<open>error\<close>.
\<close>

datatype error = UpstreamError | ValueError | UnboundLocalError

type_synonym 'c point = "'c \<times> 'c"

text \<open>A row of the data frame returned by \<^verbatim>\<open>clusters\<close>: the columns lon, lat and cl.\<close>

type_synonym 'c row = "'c point \<times> int"

text \<open>
  What \<^verbatim>\<open>in_hull\<close> may receive as its second argument: a plain array of vertices, or
  an instance of \<^verbatim>\<open>scipy.spatial.Delaunay\<close> (the case its \<^verbatim>\<open>isinstance\<close> test
  looks for).
\<close>

datatype ('c, 't) hullarg = NdArray "'c point list" | DelaunayObj 't

text \<open>
  The third-party routines the notebook calls.
  \<^item> \<open>session_execute uid\<close>: the rows of \<^verbatim>\<open>session.execute(cql_prepared.bind([uid]))\<close>,
    or the exception of the driver;
  \<^item> \<open>DBSCAN_fit eps min_samples X\<close>: \<^verbatim>\<open>DBSCAN(eps, min_samples).fit(X).labels_\<close>,
    or the exception raised by \<^verbatim>\<open>fit\<close>;
  \<^item> \<open>ConvexHull pts\<close>: \<^verbatim>\<open>ConvexHull(pts, qhull_options='QJ Pp').vertices\<close>,
    \<open>None\<close> when the constructor raises;
  \<^item> \<open>Delaunay pts\<close>: \<^verbatim>\<open>Delaunay(pts, qhull_options='QJ Pp')\<close>, \<open>None\<close> when the
    constructor raises;
  \<^item> \<open>find_simplex t p\<close>: \<^verbatim>\<open>t.find_simplex(p)\<close>, \<open>None\<close> when it raises.
\<close>

record ('c, 't) library =
  session_execute :: "int \<Rightarrow> error + 'c point list"
  DBSCAN_fit :: "real \<Rightarrow> nat \<Rightarrow> 'c point list \<Rightarrow> error + int list"
  ConvexHull :: "'c point list \<Rightarrow> nat list option"
  Delaunay :: "'c point list \<Rightarrow> 't option"
  find_simplex :: "'t \<Rightarrow> 'c point \<Rightarrow> int option"

section \<open>The notebook's functions\<close>

subsection \<open>clusters\<close>

text \<open>
  \<^verbatim>\<open>
  def clusters(uid, radius=260):
      eps = radius/111034.61
      rows = session.execute(cql_prepared.bind([uid]))
      data = pd.DataFrame(list(rows))
      db = DBSCAN(eps=eps, min_samples=3).fit(data)
      data['cl'] = db.labels_
      return data
  \<close>
  Assigning a column whose length differs from the frame's raises \<^verbatim>\<open>ValueError\<close>.
\<close>

definition clusters :: "('c, 't) library \<Rightarrow> int \<Rightarrow> real \<Rightarrow> error + 'c row list" where
  "clusters lib uid radius =
     (let eps = radius / 111034.61 in
      case session_execute lib uid of
        Inl e \<Rightarrow> Inl e
      | Inr rows \<Rightarrow>
          (case DBSCAN_fit lib eps 3 rows of
             Inl e \<Rightarrow> Inl e
           | Inr labels \<Rightarrow>
               if length labels = length rows then Inr (zip rows labels)
               else Inl ValueError))"

subsection \<open>regions\<close>

text \<open>
  \<^verbatim>\<open>data.groupby('cl')\<close> yields one group per distinct label, in ascending order of
  the label, each group holding its rows in their original order.
\<close>

definition groupby_cl :: "'c row list \<Rightarrow> (int \<times> 'c row list) list" where
  "groupby_cl data =
     map (\<lambda>cl. (cl, filter (\<lambda>r. snd r = cl) data)) (sort (remdups (map snd data)))"

text \<open>
  \<^verbatim>\<open>
  def regions(data):
      hulls = []
      for cl, group in data.groupby('cl'):
          if cl>=0:
              points = group[['lon','lat']].as_matrix()
          try:
              hull = ConvexHull(points, qhull_options='QJ Pp')
              hull_vertices = np.array([ [points[i][0], points[i][1]] for i in hull.vertices ])
              hulls.append(hull_vertices)
          except:
              pass
      return hulls
  \<close>
  The \<^verbatim>\<open>try\<close> is not under the \<^verbatim>\<open>if\<close>: for a group with a negative label the
  variable \<^verbatim>\<open>points\<close> keeps the value of an earlier iteration, and is unbound when
  there was none (the \<^verbatim>\<open>NameError\<close> is caught by the bare \<^verbatim>\<open>except\<close>). The
  loop state is therefore the pair of \<^verbatim>\<open>points\<close> (\<open>None\<close> while unbound) and
  \<^verbatim>\<open>hulls\<close>. An index of \<^verbatim>\<open>hull.vertices\<close> out of range raises inside the
  \<^verbatim>\<open>try\<close> as well.
\<close>

fun regions_loop ::
  "('c, 't) library \<Rightarrow> (int \<times> 'c row list) list \<Rightarrow> 'c point list option \<Rightarrow>
   ('c, 't) hullarg list \<Rightarrow> ('c, 't) hullarg list" where
  "regions_loop lib [] points hulls = hulls"
| "regions_loop lib ((cl, grp) # rest) points hulls =
     (let points' = (if cl \<ge> 0 then Some (map fst grp) else points) in
      case points' of
        None \<Rightarrow> regions_loop lib rest points' hulls
      | Some pts \<Rightarrow>
          (case ConvexHull lib pts of
             None \<Rightarrow> regions_loop lib rest points' hulls
           | Some vs \<Rightarrow>
               if list_all (\<lambda>i. i < length pts) vs
               then regions_loop lib rest points' (hulls @ [NdArray (map (\<lambda>i. pts ! i) vs)])
               else regions_loop lib rest points' hulls))"

definition regions :: "('c, 't) library \<Rightarrow> 'c row list \<Rightarrow> ('c, 't) hullarg list" where
  "regions lib data = regions_loop lib (groupby_cl data) None []"

subsection \<open>in\_hull\<close>

text \<open>
  \<^verbatim>\<open>
  def in_hull(p, convexhull):
      if not isinstance(convexhull,Delaunay):
          try:
              hull = Delaunay(convexhull, qhull_options='QJ Pp')
              res  = hull.find_simplex(p)>=0
          except:
              res = False
      return res
  \<close>
  When the argument is a \<^verbatim>\<open>Delaunay\<close> instance no branch assigns \<^verbatim>\<open>res\<close> and
  the \<^verbatim>\<open>return\<close> raises \<^verbatim>\<open>UnboundLocalError\<close>.
\<close>

definition in_hull :: "('c, 't) library \<Rightarrow> 'c point \<Rightarrow> ('c, 't) hullarg \<Rightarrow> error + bool" where
  "in_hull lib p convexhull =
     (case convexhull of
        DelaunayObj t \<Rightarrow> Inl UnboundLocalError
      | NdArray vertices \<Rightarrow>
          (case Delaunay lib vertices of
             None \<Rightarrow> Inr False
           | Some tri \<Rightarrow>
               (case find_simplex lib tri p of
                  None \<Rightarrow> Inr False
                | Some s \<Rightarrow> Inr (s \<ge> 0))))"

subsection \<open>location\_alert\<close>

text \<open>
  \<^verbatim>\<open>
  def location_alert(uid, lon, lat):
      result = False
      hulls = regions(clusters(uid))
      for k in list(range(len(hulls))):
          result = result or in_hull([lon, lat], hulls[k])
      return (not result)
  \<close>
  \<^verbatim>\<open>or\<close> does not evaluate \<^verbatim>\<open>in_hull\<close> once \<^verbatim>\<open>result\<close> is true.
\<close>

fun alert_loop ::
  "('c, 't) library \<Rightarrow> 'c point \<Rightarrow> ('c, 't) hullarg list \<Rightarrow> bool \<Rightarrow> error + bool" where
  "alert_loop lib p [] result = Inr result"
| "alert_loop lib p (h # hs) result =
     (if result then alert_loop lib p hs True
      else case in_hull lib p h of
             Inl e \<Rightarrow> Inl e
           | Inr b \<Rightarrow> alert_loop lib p hs b)"

definition location_alert :: "('c, 't) library \<Rightarrow> int \<Rightarrow> 'c \<Rightarrow> 'c \<Rightarrow> error + bool" where
  "location_alert lib uid lon lat =
     (case clusters lib uid 260 of
        Inl e \<Rightarrow> Inl e
      | Inr data \<Rightarrow>
          (case alert_loop lib (lon, lat) (regions lib data) False of
             Inl e \<Rightarrow> Inl e
           | Inr result \<Rightarrow> Inr (\<not> result)))"

section \<open>The third-party routines, from the specification\<close>

text \<open>
  The routines of scikit-learn and SciPy are not part of the repository. Where a statement
  needs more than the notebook's own control flow, or a concrete library to run the
  notebook on, the definitions of this section stand in for them. Each follows the
  specification's description of the component, over coordinates whose finite values are
  exact reals (rounding is not modelled).
\<close>

text \<open>
  Modelled from the spec: a coordinate of a LocationPoint,
  \<^verbatim>\<open>{longitude: float64, latitude: float64}\<close> (the floating-point type is NumPy's, not
  under src/): a finite value, taken as an exact real, or one of the non-finite values that
  the spec's InputError is about.
\<close>

datatype float64 = Finite real | PosInf | NegInf | NaN

text \<open>
  Modelled from the spec: the reading of a LocationPoint whose coordinates are both
  finite ("well-formed finite coordinates") as a point of the plane; \<open>None\<close> for a
  point with a non-finite coordinate.
\<close>

fun finite_pt :: "float64 point \<Rightarrow> real point option" where
  "finite_pt (Finite x, Finite y) = Some (x, y)"
| "finite_pt _ = None"

subsection \<open>Region Clusterer\<close>

text \<open>
  Modelled from the spec: the neighbourhood test of the Region Clusterer (scikit-learn's
  DBSCAN is not under src/), "within Euclidean distance \<open>eps\<close>" in the plane of
  (longitude, latitude), written with squares instead of the square root. A point with a
  non-finite coordinate is within \<open>eps\<close> of no point.
\<close>

definition within_eps :: "real \<Rightarrow> float64 point \<Rightarrow> float64 point \<Rightarrow> bool" where
  "within_eps eps p q =
     (case (finite_pt p, finite_pt q) of
        (Some (x1, y1), Some (x2, y2)) \<Rightarrow> 0 \<le> eps \<and> (x1 - x2)\<^sup>2 + (y1 - y2)\<^sup>2 \<le> eps\<^sup>2
      | _ \<Rightarrow> False)"

text \<open>
  Modelled from the spec: "A point is a core point if at least \<open>minSamples\<close> points
  (including itself) lie within Euclidean distance \<open>eps\<close> of it." The neighbourhood
  test is the parameter \<open>nb\<close>.
\<close>

definition is_core :: "('p \<Rightarrow> 'p \<Rightarrow> bool) \<Rightarrow> nat \<Rightarrow> 'p list \<Rightarrow> 'p \<Rightarrow> bool" where
  "is_core nb ms X p = (ms \<le> length (filter (nb p) X))"

text \<open>
  Modelled from the spec: one step of "transitively connecting core points reachable from
  one another within \<open>eps\<close>". \<open>expand\<close> adds to a list \<open>S\<close> of core points the core
  points (of the list \<open>C\<close> of all of them) that are neighbours of a member of \<open>S\<close>.
\<close>

definition expand :: "('p \<Rightarrow> 'p \<Rightarrow> bool) \<Rightarrow> 'p list \<Rightarrow> 'p list \<Rightarrow> 'p list" where
  "expand nb C S = S @ filter (\<lambda>q. q \<notin> set S \<and> list_ex (\<lambda>s. nb s q) S) C"

text \<open>
  Modelled from the spec: "Clusters are formed by transitively connecting core points
  reachable from one another within \<open>eps\<close>". The cluster of the core point \<open>p\<close> is
  what \<open>expand\<close> reaches from \<open>p\<close> in as many steps as there are core points.
\<close>

definition component :: "('p \<Rightarrow> 'p \<Rightarrow> bool) \<Rightarrow> 'p list \<Rightarrow> 'p \<Rightarrow> 'p list" where
  "component nb C p = ((expand nb C) ^^ length C) [p]"

text \<open>
  Modelled from the spec: the cluster ids. The spec leaves their values open ("labels are
  opaque identifiers"); here the clusters are numbered 0, 1, 2, ... in the order in which
  their first core point occurs in the input.
\<close>

fun number_clusters ::
  "('p \<Rightarrow> 'p \<Rightarrow> bool) \<Rightarrow> 'p list \<Rightarrow> 'p list \<Rightarrow> int \<Rightarrow> ('p \<times> int) list \<Rightarrow> ('p \<times> int) list" where
  "number_clusters nb C [] k tbl = tbl"
| "number_clusters nb C (c # cs) k tbl =
     (case map_of tbl c of
        Some j \<Rightarrow> number_clusters nb C cs k tbl
      | None \<Rightarrow> number_clusters nb C cs (k + 1) (tbl @ map (\<lambda>q. (q, k)) (component nb C c)))"

text \<open>
  Modelled from the spec: the label of a point. A core point has the id of its cluster; a
  non-core point within \<open>eps\<close> of some core point is a border point and is absorbed into
  the cluster of (the first such) core point; "Points belonging to no cluster receive label
  NOISE", the value \<open>-1\<close>.
\<close>

definition label_of ::
  "('p \<Rightarrow> 'p \<Rightarrow> bool) \<Rightarrow> nat \<Rightarrow> 'p list \<Rightarrow> 'p list \<Rightarrow> ('p \<times> int) list \<Rightarrow> 'p \<Rightarrow> int" where
  "label_of nb ms X C tbl p =
     (if is_core nb ms X p then (case map_of tbl p of Some k \<Rightarrow> k | None \<Rightarrow> - 1)
      else (case find (nb p) C of
              Some c \<Rightarrow> (case map_of tbl c of Some k \<Rightarrow> k | None \<Rightarrow> - 1)
            | None \<Rightarrow> - 1))"

text \<open>
  Modelled from the spec: the Region Clusterer,
  \<^verbatim>\<open>cluster(points, eps, minSamples) -> labeled PointSet\<close>, one label per input point.
\<close>

definition dbscan :: "('p \<Rightarrow> 'p \<Rightarrow> bool) \<Rightarrow> nat \<Rightarrow> 'p list \<Rightarrow> int list" where
  "dbscan nb ms X =
     (let C = remdups (filter (is_core nb ms X) X);
          tbl = number_clusters nb C C 0 []
      in map (label_of nb ms X C tbl) X)"

text \<open>
  Modelled from the spec: the Region Clusterer as the routine \<open>DBSCAN_fit\<close> of the
  library; "Failure: none -- always returns a complete labeling".
\<close>

definition spec_DBSCAN_fit :: "real \<Rightarrow> nat \<Rightarrow> float64 point list \<Rightarrow> error + int list" where
  "spec_DBSCAN_fit eps ms X = Inr (dbscan (within_eps eps) ms X)"

text \<open>
  Modelled from the spec: the Region Clusterer as scikit-learn's \<^verbatim>\<open>fit\<close> runs it
  (not under src/): behind the validation of its input. \<^verbatim>\<open>fit\<close> raises
  \<^verbatim>\<open>ValueError\<close> for an array with no sample, for a value that is not finite and for
  an \<open>eps\<close> that is not positive; the notebook has no guard of its own in front of it.
\<close>

definition validating_DBSCAN_fit :: "real \<Rightarrow> nat \<Rightarrow> float64 point list \<Rightarrow> error + int list" where
  "validating_DBSCAN_fit eps ms X =
     (if X = [] \<or> eps \<le> 0 \<or> \<not> list_all (\<lambda>p. finite_pt p \<noteq> None) X then Inl ValueError
      else spec_DBSCAN_fit eps ms X)"

subsection \<open>Boundary Builder\<close>

text \<open>
  The hull routine of the Boundary Builder is a "standard planar convex-hull algorithm";
  the one taken here is Andrew's monotone chain over the points sorted by (longitude,
  latitude). It excludes collinear boundary points and returns the indices of the
  vertices counter-clockwise.
\<close>

text \<open>
  Modelled from the spec: the orientation test of the hull routine (SciPy's ConvexHull is
  not under src/): the cross product of \<open>b - a\<close> and \<open>c - a\<close>, positive when \<open>a\<close>,
  \<open>b\<close>, \<open>c\<close> turn counter-clockwise and zero when they are collinear.
\<close>

definition cross :: "real point \<Rightarrow> real point \<Rightarrow> real point \<Rightarrow> real" where
  "cross a b c = (fst b - fst a) * (snd c - snd a) - (snd b - snd a) * (fst c - fst a)"

text \<open>
  Modelled from the spec: one step of the monotone chain. The stack holds the chain built
  so far, its last point first; points that would make the chain turn clockwise or go
  straight are removed before the new point is added.
\<close>

fun push :: "(real point \<times> nat) list \<Rightarrow> real point \<times> nat \<Rightarrow> (real point \<times> nat) list" where
  "push (b # a # st) p =
     (if cross (fst a) (fst b) (fst p) \<le> 0 then push (a # st) p else p # b # a # st)"
| "push st p = p # st"

text \<open>
  Modelled from the spec: one half of the hull, the chain over the given (sorted) points,
  without its last point (which is the first of the other half).
\<close>

definition chain :: "(real point \<times> nat) list \<Rightarrow> (real point \<times> nat) list" where
  "chain xs = butlast (rev (foldl push [] xs))"

text \<open>
  Modelled from the spec: the indices of the hull's vertices: the lower chain over the
  points in ascending order, then the upper chain over the points in descending order.
\<close>

definition monotone_chain :: "real point list \<Rightarrow> nat list" where
  "monotone_chain pts =
     (let s = sort (zip pts [0..<length pts]) in map snd (chain s @ chain (rev s)))"

text \<open>
  Modelled from the spec: the hull routine as the routine \<open>ConvexHull\<close> of the library.
  A cluster with a non-finite coordinate, with fewer than 3 points, or with all points
  collinear or coincident has no hull ("hull computation is undefined"): the routine fails.
\<close>

definition spec_ConvexHull :: "float64 point list \<Rightarrow> nat list option" where
  "spec_ConvexHull pts =
     (case those (map finite_pt pts) of
        None \<Rightarrow> None
      | Some rs \<Rightarrow> (let vs = monotone_chain rs in if length vs < 3 then None else Some vs))"

text \<open>
  Modelled from the spec: the hull routine with the options \<^verbatim>\<open>'QJ Pp'\<close> that the
  notebook passes (SciPy's ConvexHull is not under src/; the spec's section 9: the source
  "tolerated near-degenerate point configurations by perturbation"). The input is joggled
  until its hull is not degenerate, so 3 or more collinear or coincident points do have a
  hull; which of them become vertices depends on the perturbation (here: all of them, in
  the order of the input). Fewer than 3 points, or a coordinate that is not finite, make
  the routine fail.
\<close>

definition joggled_ConvexHull :: "float64 point list \<Rightarrow> nat list option" where
  "joggled_ConvexHull pts =
     (case spec_ConvexHull pts of
        Some vs \<Rightarrow> Some vs
      | None \<Rightarrow>
          if 3 \<le> length pts \<and> list_all (\<lambda>p. finite_pt p \<noteq> None) pts
          then Some [0..<length pts] else None)"

text \<open>
  Modelled from the spec: the invariant of a Region, "every member point of the source
  cluster lies within or on the hull", for a polygon given by its vertices
  counter-clockwise, as the hull routine returns them: the point and the vertices are
  finite, the vertices are 3 or more, and the point is on the left of, or on, every edge
  of the polygon (from each vertex to the next, and from the last to the first).
\<close>

definition within_hull :: "float64 point list \<Rightarrow> float64 point \<Rightarrow> bool" where
  "within_hull vs p =
     (case those (map finite_pt vs) of
        None \<Rightarrow> False
      | Some rs \<Rightarrow>
          (case finite_pt p of
             None \<Rightarrow> False
           | Some q \<Rightarrow> 3 \<le> length rs \<and> list_all (\<lambda>(a, b). 0 \<le> cross a b q) (zip rs (rotate1 rs))))"

subsection \<open>Membership Tester\<close>

text \<open>
  The Membership Tester is to "triangulate its polygon ... and test whether the query
  point falls within any triangle (equivalently: within the polygon, including its
  boundary)". A triangulation is the list of its triangles.
\<close>

type_synonym triangle = "real point \<times> real point \<times> real point"

text \<open>
  Modelled from the spec: the triangles of a polygon (SciPy's Delaunay is not under
  src/): the fan at the polygon's first vertex.
\<close>

fun fan :: "real point list \<Rightarrow> triangle list" where
  "fan [] = []"
| "fan (a # rest) = map (\<lambda>(b, c). (a, b, c)) (zip rest (tl rest))"

text \<open>
  Modelled from the spec: "the query point falls within" a triangle, "including its
  boundary": the point is on the same side of the three edges, or on one of them.
\<close>

fun in_triangle :: "triangle \<Rightarrow> real point \<Rightarrow> bool" where
  "in_triangle (a, b, c) p =
     (let d1 = cross a b p; d2 = cross b c p; d3 = cross c a p
      in (0 \<le> d1 \<and> 0 \<le> d2 \<and> 0 \<le> d3) \<or> (d1 \<le> 0 \<and> d2 \<le> 0 \<and> d3 \<le> 0))"

text \<open>
  Modelled from the spec: the triangulation as the routine \<open>Delaunay\<close> of the library.
  It fails when a coordinate is not finite or when no triangle with an area remains (the
  vertices are fewer than 3, or collinear).
\<close>

definition spec_Delaunay :: "float64 point list \<Rightarrow> triangle list option" where
  "spec_Delaunay vs =
     (case those (map finite_pt vs) of
        None \<Rightarrow> None
      | Some rs \<Rightarrow>
          (let ts = filter (\<lambda>(a, b, c). cross a b c \<noteq> 0) (fan rs)
           in if ts = [] then None else Some ts))"

text \<open>
  Modelled from the spec: the search through the triangles: the index (counted from
  \<open>i\<close>) of the first element that satisfies \<open>P\<close>, and \<open>-1\<close> when there is none.
\<close>

fun first_index :: "('a \<Rightarrow> bool) \<Rightarrow> 'a list \<Rightarrow> int \<Rightarrow> int" where
  "first_index P [] i = - 1"
| "first_index P (t # ts) i = (if P t then i else first_index P ts (i + 1))"

text \<open>
  Modelled from the spec: the point location as the routine \<open>find_simplex\<close> of the
  library: the index of the first triangle that holds the point and \<open>-1\<close> when there is
  none, as for a point with a non-finite coordinate. It does not fail.
\<close>

definition spec_find_simplex :: "triangle list \<Rightarrow> float64 point \<Rightarrow> int option" where
  "spec_find_simplex ts p =
     (case finite_pt p of
        None \<Rightarrow> Some (- 1)
      | Some q \<Rightarrow> Some (first_index (\<lambda>t. in_triangle t q) ts 0))"

subsection \<open>An Event Store and the library built from the above\<close>

text \<open>
  Modelled from the spec: the history of the spec's synthetic user, "three points forming
  a tight triangle (0,0), (0,0.0001), (0.0001,0)".
\<close>

definition triangle_history :: "float64 point list" where
  "triangle_history = [(Finite 0, Finite 0), (Finite 0, Finite 0.0001), (Finite 0.0001, Finite 0)]"

text \<open>Modelled from the spec: the same history in another order.\<close>

definition triangle_history_reordered :: "float64 point list" where
  "triangle_history_reordered =
     [(Finite 0.0001, Finite 0), (Finite 0, Finite 0), (Finite 0, Finite 0.0001)]"

text \<open>
  Modelled from the spec: an Event Store (\<^verbatim>\<open>fetchHistory(userId)\<close>; the Cassandra
  keyspace is not under src/) with the histories of the spec's section 8: user 22 has the
  three points of the tight triangle, user 23 the same points in another order, user 1 a
  single isolated point, every other user an empty history.
\<close>

definition example_store :: "int \<Rightarrow> error + float64 point list" where
  "example_store uid =
     (if uid = 22 then Inr triangle_history
      else if uid = 23 then Inr triangle_history_reordered
      else if uid = 1 then Inr [(Finite 3, Finite 4)]
      else Inr [])"

text \<open>
  Modelled from the spec: the Region of the tight triangle, "one triangular Region": its
  three points, counter-clockwise.
\<close>

definition triangle_region :: "float64 point list" where
  "triangle_region = [(Finite 0, Finite 0), (Finite 0.0001, Finite 0), (Finite 0, Finite 0.0001)]"

text \<open>
  Modelled from the spec: a labelled PointSet with the tight triangle as cluster 0, three
  collinear points (a degenerate cluster) as cluster 1 and one NOISE point.
\<close>

definition example_data :: "float64 row list" where
  "example_data =
     [((Finite 1.002, Finite 1.002), 1), ((Finite 0, Finite 0), 0), ((Finite 5, Finite 5), - 1),
      ((Finite 1, Finite 1), 1), ((Finite 0, Finite 0.0001), 0),
      ((Finite 1.001, Finite 1.001), 1), ((Finite 0.0001, Finite 0), 0)]"

text \<open>
  Modelled from the spec: the library of the routines above, the collaborators of the
  Geofence Evaluator.
\<close>

definition spec_lib :: "(float64, triangle list) library" where
  "spec_lib =
     \<lparr> session_execute = example_store,
       DBSCAN_fit = spec_DBSCAN_fit,
       ConvexHull = spec_ConvexHull,
       Delaunay = spec_Delaunay,
       find_simplex = spec_find_simplex \<rparr>"

text \<open>
  Modelled from the spec: the library with the clusterer behind the validation of
  \<^verbatim>\<open>fit\<close>.
\<close>

definition checked_lib :: "(float64, triangle list) library" where
  "checked_lib = spec_lib \<lparr> DBSCAN_fit := validating_DBSCAN_fit \<rparr>"

text \<open>Modelled from the spec: the library with the joggled hull routine.\<close>

definition joggle_lib :: "(float64, triangle list) library" where
  "joggle_lib = spec_lib \<lparr> ConvexHull := joggled_ConvexHull \<rparr>"

text \<open>
  Modelled from the spec: the three collinear points of cluster 1 of \<open>example_data\<close>, in
  the order of the frame.
\<close>

definition collinear_region :: "float64 point list" where
  "collinear_region =
     [(Finite 1.002, Finite 1.002), (Finite 1, Finite 1), (Finite 1.001, Finite 1.001)]"

text \<open>
  Modelled from the spec: a labelled PointSet with the tight triangle as cluster 0 and a
  cluster 1 of two points ("fewer than 3 points").
\<close>

definition pair_data :: "float64 row list" where
  "pair_data =
     [((Finite 1.001, Finite 1.001), 1), ((Finite 0, Finite 0), 0), ((Finite 1, Finite 1), 1),
      ((Finite 0, Finite 0.0001), 0), ((Finite 0.0001, Finite 0), 0)]"

section \<open>Auxiliary notions\<close>

text \<open>The member points of the cluster \<open>cl\<close> of a labelled frame, in the frame's order.\<close>

definition members :: "'c row list \<Rightarrow> int \<Rightarrow> 'c point list" where
  "members data cl = map fst (filter (\<lambda>r. snd r = cl) data)"

text \<open>
  One iteration of the loop of \<^verbatim>\<open>regions\<close>, in two parts: the value of
  \<^verbatim>\<open>points\<close> after the \<^verbatim>\<open>if\<close>, and what the \<^verbatim>\<open>try\<close> appends to
  \<^verbatim>\<open>hulls\<close>.
\<close>

definition next_points :: "int \<Rightarrow> 'c row list \<Rightarrow> 'c point list option \<Rightarrow> 'c point list option" where
  "next_points cl grp points = (if cl \<ge> 0 then Some (map fst grp) else points)"

definition try_hull :: "('c, 't) library \<Rightarrow> 'c point list option \<Rightarrow> ('c, 't) hullarg list" where
  "try_hull lib points =
     (case points of
        None \<Rightarrow> []
      | Some pts \<Rightarrow>
          (case ConvexHull lib pts of
             None \<Rightarrow> []
           | Some vs \<Rightarrow>
               if list_all (\<lambda>i. i < length pts) vs then [NdArray (map (\<lambda>i. pts ! i) vs)]
               else []))"

text \<open>
  Two core points are adjacent when one is a neighbour of the other; the clusters of core
  points are the classes of the reflexive transitive closure of this relation.
\<close>

definition core_rel :: "('p \<Rightarrow> 'p \<Rightarrow> bool) \<Rightarrow> 'p list \<Rightarrow> ('p \<times> 'p) set" where
  "core_rel nb C = {(a, b). a \<in> set C \<and> b \<in> set C \<and> nb a b}"

text \<open>One step of the expansion of a cluster, on sets.\<close>

definition grow :: "('p \<times> 'p) set \<Rightarrow> 'p set \<Rightarrow> 'p set" where
  "grow R T = T \<union> R `` T"

text \<open>
  The invariant of \<open>number_clusters\<close>: the table holds points of \<open>A\<close> with ids from 0
  up to (and without) \<open>k\<close>, and two points have the same id exactly when they are related
  by \<open>Q\<close>.
\<close>

definition tbl_inv :: "('p \<times> 'p) set \<Rightarrow> 'p set \<Rightarrow> int \<Rightarrow> ('p \<times> int) list \<Rightarrow> bool" where
  "tbl_inv Q A k tbl =
     ((\<forall>p j. map_of tbl p = Some j \<longrightarrow> p \<in> A \<and> 0 \<le> j \<and> j < k) \<and>
      (\<forall>p q j. map_of tbl p = Some j \<longrightarrow> (p, q) \<in> Q \<longrightarrow> map_of tbl q = Some j) \<and>
      (\<forall>p q j. map_of tbl p = Some j \<longrightarrow> map_of tbl q = Some j \<longrightarrow> (p, q) \<in> Q))"

text \<open>The core points of a point set, and the label of a point as a function of the point.\<close>

definition cores :: "('p \<Rightarrow> 'p \<Rightarrow> bool) \<Rightarrow> nat \<Rightarrow> 'p list \<Rightarrow> 'p list" where
  "cores nb ms X = remdups (filter (is_core nb ms X) X)"

definition lab :: "('p \<Rightarrow> 'p \<Rightarrow> bool) \<Rightarrow> nat \<Rightarrow> 'p list \<Rightarrow> 'p \<Rightarrow> int" where
  "lab nb ms X p =
     label_of nb ms X (cores nb ms X)
       (number_clusters nb (cores nb ms X) (cores nb ms X) 0 []) p"

text \<open>
  The core point that decides the label of a point: the point itself when it is a core
  point, else the core point that absorbs it, if there is one.
\<close>

definition anchor :: "('p \<Rightarrow> 'p \<Rightarrow> bool) \<Rightarrow> nat \<Rightarrow> 'p list \<Rightarrow> 'p \<Rightarrow> 'p option" where
  "anchor nb ms X p = (if is_core nb ms X p then Some p else find (nb p) (cores nb ms X))"

text \<open>
  Whether the Region built from a cluster's points holds a query point: the composition
  of the \<^verbatim>\<open>try\<close> block of \<^verbatim>\<open>regions\<close> with \<^verbatim>\<open>in_hull\<close>.
\<close>

definition covers :: "('c, 't) library \<Rightarrow> 'c point \<Rightarrow> 'c point list \<Rightarrow> bool" where
  "covers lib p pts = list_ex (\<lambda>h. in_hull lib p h = Inr True) (try_hull lib (Some pts))"

text \<open>
  A library whose hull and triangulation routines, taken together, do not depend on the
  order in which the points of a cluster are given.
\<close>

definition order_free :: "('c, 't) library \<Rightarrow> bool" where
  "order_free lib = (\<forall>p pts pts'. mset pts' = mset pts \<longrightarrow> covers lib p pts' = covers lib p pts)"

text \<open>
  One step of the monotone chain on the points alone, without their indices (the
  projection of \<open>push\<close>).
\<close>

fun hull_push :: "real point list \<Rightarrow> real point \<Rightarrow> real point list" where
  "hull_push (b # a # st) p =
     (if cross a b p \<le> 0 then hull_push (a # st) p else p # b # a # st)"
| "hull_push st p = p # st"

text \<open>
  A chain (its last point first) turns counter-clockwise at each of its inner points.
\<close>

fun convex_chain :: "real point list \<Rightarrow> bool" where
  "convex_chain (c # b # a # st) = (0 < cross a b c \<and> convex_chain (b # a # st))"
| "convex_chain st = True"

text \<open>A point is on the left of, or on, every edge of a chain (its last point first).\<close>

fun above_chain :: "real point list \<Rightarrow> real point \<Rightarrow> bool" where
  "above_chain (b # a # st) q = (0 \<le> cross a b q \<and> above_chain (a # st) q)"
| "above_chain st q = True"

text \<open>
  The invariant of the monotone chain over the points \<open>P\<close> seen so far: the chain
  is ascending and turns counter-clockwise, every point seen is on the left of, or on,
  each of its edges, and none is before its first point.
\<close>

definition chain_ok :: "real point set \<Rightarrow> real point list \<Rightarrow> bool" where
  "chain_ok P st =
     (st \<noteq> [] \<and> sorted (rev st) \<and> convex_chain st \<and>
      (\<forall>q \<in> P. above_chain st q) \<and> (\<forall>q \<in> P. last st \<le> q))"

text \<open>
  The point reflection at the origin: it reverses the order of the points and keeps
  orientations, so the upper chain of a point set is the lower chain of its reflection.
\<close>

definition mirror :: "real point \<Rightarrow> real point" where
  "mirror p = (- fst p, - snd p)"

text \<open>A vector that is not before the origin in the lexicographic order.\<close>

definition lexnn :: "real \<times> real \<Rightarrow> bool" where
  "lexnn v = (0 < fst v \<or> (fst v = 0 \<and> 0 \<le> snd v))"

section \<open>The loop of regions\<close>

lemma in_hull_NdArray_defined: "\<exists>b. in_hull lib p (NdArray v) = Inr b"
  by (auto simp: in_hull_def split: option.splits)

lemma regions_loop_Cons:
  "regions_loop lib ((cl, grp) # rest) points hulls =
     regions_loop lib rest (next_points cl grp points)
       (hulls @ try_hull lib (next_points cl grp points))"
  by (simp add: next_points_def try_hull_def Let_def split: option.splits)

lemma try_hull_NdArray: "h \<in> set (try_hull lib points) \<Longrightarrow> \<exists>v. h = NdArray v"
  by (auto simp: try_hull_def split: option.splits if_splits)

text \<open>
  While every label met so far is negative, \<^verbatim>\<open>points\<close> stays unbound and nothing is
  appended.
\<close>

lemma regions_loop_negative_prefix:
  "list_all (\<lambda>g. fst g < 0) gs \<Longrightarrow>
   regions_loop lib (gs @ gs') None hulls = regions_loop lib gs' None hulls"
proof (induction gs)
  case Nil
  then show ?case by simp
next
  case (Cons g gs)
  obtain cl grp where g: "g = (cl, grp)" by (cases g)
  from Cons.prems have "cl < 0" and rest: "list_all (\<lambda>g. fst g < 0) gs"
    by (simp_all add: g)
  then have "next_points cl grp None = None"
    by (simp add: next_points_def)
  then show ?case
    using Cons.IH[OF rest] by (simp add: g regions_loop_Cons try_hull_def del: regions_loop.simps)
qed

text \<open>
  From the first non-negative label on, every iteration assigns \<^verbatim>\<open>points\<close> afresh:
  the value it had before does not matter.
\<close>

lemma regions_loop_nonnegative:
  "list_all (\<lambda>g. 0 \<le> fst g) gs \<Longrightarrow>
   regions_loop lib gs points hulls =
     hulls @ concat (map (\<lambda>g. try_hull lib (Some (map fst (snd g)))) gs)"
proof (induction gs arbitrary: points hulls)
  case Nil
  then show ?case by simp
next
  case (Cons g gs)
  obtain cl grp where g: "g = (cl, grp)" by (cases g)
  from Cons.prems have "0 \<le> cl" and rest: "list_all (\<lambda>g. 0 \<le> fst g) gs"
    by (simp_all add: g)
  then have "next_points cl grp points = Some (map fst grp)"
    by (simp add: next_points_def)
  then show ?case
    using Cons.IH[OF rest] by (simp add: g regions_loop_Cons del: regions_loop.simps)
qed

lemma sorted_split_sign:
  "sorted (ls :: int list) \<Longrightarrow> ls = filter (\<lambda>c. c < 0) ls @ filter (\<lambda>c. 0 \<le> c) ls"
proof (induction ls)
  case Nil
  then show ?case by simp
next
  case (Cons x xs)
  then have IH: "xs = filter (\<lambda>c. c < 0) xs @ filter (\<lambda>c. 0 \<le> c) xs"
    and le: "\<forall>y \<in> set xs. x \<le> y"
    by simp_all
  show ?case
  proof (cases "x < 0")
    case True
    then show ?thesis using IH by simp
  next
    case False
    with le have "\<forall>y \<in> set xs. 0 \<le> y" by auto
    then have "filter (\<lambda>c. c < 0) xs = []" and "filter (\<lambda>c. 0 \<le> c) xs = xs"
      by (auto simp: filter_empty_conv filter_id_conv)
    with False show ?thesis by simp
  qed
qed

text \<open>
  What \<^verbatim>\<open>regions\<close> returns: for each non-negative label, in ascending order, the
  hull of the label's member points when the hull routine returns one.
\<close>

lemma regions_eq:
  "regions lib data =
     concat (map (\<lambda>cl. try_hull lib (Some (members data cl)))
               (filter (\<lambda>c. 0 \<le> c) (sort (remdups (map snd data)))))"
proof -
  define ls where "ls = sort (remdups (map snd data))"
  define G where "G = (\<lambda>cl. (cl, filter (\<lambda>r. snd r = cl) data))"
  have "sorted ls" by (simp add: ls_def)
  then have split: "ls = filter (\<lambda>c. c < 0) ls @ filter (\<lambda>c. 0 \<le> c) ls"
    by (rule sorted_split_sign)
  have neg: "list_all (\<lambda>g. fst g < 0) (map G (filter (\<lambda>c. c < 0) ls))"
    by (simp add: list_all_iff G_def)
  have nonneg: "list_all (\<lambda>g. 0 \<le> fst g) (map G (filter (\<lambda>c. 0 \<le> c) ls))"
    by (simp add: list_all_iff G_def)
  have "groupby_cl data = map G ls"
    by (simp add: groupby_cl_def ls_def G_def)
  also have "\<dots> = map G (filter (\<lambda>c. c < 0) ls) @ map G (filter (\<lambda>c. 0 \<le> c) ls)"
    using split by (metis map_append)
  finally have "regions lib data =
      regions_loop lib (map G (filter (\<lambda>c. 0 \<le> c) ls)) None []"
    using regions_loop_negative_prefix[OF neg] by (simp add: regions_def)
  also have "\<dots> = concat (map (\<lambda>g. try_hull lib (Some (map fst (snd g))))
                        (map G (filter (\<lambda>c. 0 \<le> c) ls)))"
    using regions_loop_nonnegative[OF nonneg, of lib None "[]"] by simp
  also have "\<dots> = concat (map (\<lambda>cl. try_hull lib (Some (members data cl)))
                        (filter (\<lambda>c. 0 \<le> c) ls))"
    by (simp add: G_def members_def comp_def)
  finally show ?thesis by (simp add: ls_def)
qed

lemma regions_NdArray: "h \<in> set (regions lib data) \<Longrightarrow> \<exists>v. h = NdArray v"
  by (auto simp: regions_eq dest: try_hull_NdArray)

lemma regions_no_cluster:
  "list_all (\<lambda>r. snd r < 0) data \<Longrightarrow> regions lib data = []"
proof -
  assume "list_all (\<lambda>r. snd r < 0) data"
  then have "filter (\<lambda>c. 0 \<le> c) (sort (remdups (map snd data))) = []"
    by (auto simp: filter_empty_conv list_all_iff)
  then show ?thesis by (simp add: regions_eq)
qed

section \<open>The loop of location\_alert\<close>

lemma alert_loop_NdArray:
  "(\<And>h. h \<in> set hs \<Longrightarrow> \<exists>v. h = NdArray v) \<Longrightarrow>
   alert_loop lib p hs r = Inr (r \<or> (\<exists>h \<in> set hs. in_hull lib p h = Inr True))"
proof (induction hs arbitrary: r)
  case Nil
  then show ?case by simp
next
  case (Cons h hs)
  from Cons.prems obtain v where v: "h = NdArray v" by auto
  obtain b where b: "in_hull lib p h = Inr b"
    using in_hull_NdArray_defined v by blast
  have IH: "\<And>r. alert_loop lib p hs r = Inr (r \<or> (\<exists>h \<in> set hs. in_hull lib p h = Inr True))"
    using Cons by simp
  show ?case
    by (cases r) (auto simp: IH b)
qed

lemma alert_loop_regions:
  "alert_loop lib p (regions lib data) False =
     Inr (\<exists>h \<in> set (regions lib data). in_hull lib p h = Inr True)"
  using alert_loop_NdArray[of "regions lib data" lib p False] regions_NdArray[of _ lib data]
  by simp

lemma location_alert_eq:
  "location_alert lib uid lon lat =
     (case clusters lib uid 260 of
        Inl e \<Rightarrow> Inl e
      | Inr data \<Rightarrow>
          Inr (\<not> (\<exists>h \<in> set (regions lib data). in_hull lib (lon, lat) h = Inr True)))"
  by (simp add: location_alert_def alert_loop_regions split: sum.splits)

section \<open>The clusterer of the specification\<close>

lemma dbscan_length: "length (dbscan nb ms X) = length X"
  by (simp add: dbscan_def Let_def)

lemma is_core_few: "length X < ms \<Longrightarrow> \<not> is_core nb ms X p"
proof -
  assume few: "length X < ms"
  have "length (filter (nb p) X) \<le> length X" by (rule length_filter_le)
  with few show ?thesis unfolding is_core_def by linarith
qed

text \<open>With fewer than \<open>minSamples\<close> points there is no core point: every label is NOISE.\<close>

lemma dbscan_few: "length X < ms \<Longrightarrow> dbscan nb ms X = map (\<lambda>p. - 1) X"
proof -
  assume few: "length X < ms"
  then have "filter (is_core nb ms X) X = []"
    by (simp add: filter_empty_conv is_core_few)
  then show ?thesis
    using few by (simp add: dbscan_def label_of_def is_core_few)
qed

lemma number_clusters_nonneg:
  "0 \<le> k \<Longrightarrow> list_all (\<lambda>e. 0 \<le> snd e) tbl \<Longrightarrow>
   list_all (\<lambda>e. 0 \<le> snd e) (number_clusters nb C cs k tbl)"
proof (induction cs arbitrary: k tbl)
  case Nil
  then show ?case by simp
next
  case (Cons c cs)
  show ?case
  proof (cases "map_of tbl c")
    case None
    have "list_all (\<lambda>e. 0 \<le> snd e) (tbl @ map (\<lambda>q. (q, k)) (component nb C c))"
      using Cons.prems by (auto simp: list_all_iff)
    moreover have "0 \<le> k + 1" using Cons.prems by simp
    ultimately show ?thesis
      using Cons.IH None by simp
  next
    case (Some j)
    then show ?thesis using Cons by simp
  qed
qed

lemma label_of_range:
  "list_all (\<lambda>e. 0 \<le> snd e) tbl \<Longrightarrow> - 1 \<le> label_of nb ms X C tbl p"
proof -
  assume tbl: "list_all (\<lambda>e. 0 \<le> snd e) tbl"
  have val: "0 \<le> j" if "map_of tbl q = Some j" for q j
    using tbl map_of_SomeD[OF that] by (auto simp: list_all_iff)
  show ?thesis
    by (auto simp: label_of_def split: option.splits dest: val)
qed

lemma dbscan_range: "list_all (\<lambda>l. - 1 \<le> l) (dbscan nb ms X)"
proof -
  have "list_all (\<lambda>e. 0 \<le> snd e) (number_clusters nb C C 0 [])" for C :: "'a list"
    by (rule number_clusters_nonneg) simp_all
  then show ?thesis
    by (simp add: dbscan_def Let_def list_all_iff label_of_range)
qed

lemma clusters_spec:
  assumes "session_execute lib uid = Inr rows" and "DBSCAN_fit lib = spec_DBSCAN_fit"
  shows "clusters lib uid radius =
           Inr (zip rows (dbscan (within_eps (radius / 111034.61)) 3 rows))"
  using assms by (simp add: clusters_def spec_DBSCAN_fit_def dbscan_length)

lemma clusters_validating:
  assumes "session_execute lib uid = Inr rows" and "DBSCAN_fit lib = validating_DBSCAN_fit"
    and "rows \<noteq> []" and "0 < radius" and "list_all (\<lambda>p. finite_pt p \<noteq> None) rows"
  shows "clusters lib uid radius =
           Inr (zip rows (dbscan (within_eps (radius / 111034.61)) 3 rows))"
proof -
  have "0 < radius / 111034.61" using assms(4) by simp
  then have "\<not> radius / 111034.61 \<le> 0" by simp
  then show ?thesis
    using assms(1,2,3,5)
    by (simp add: clusters_def validating_DBSCAN_fit_def spec_DBSCAN_fit_def dbscan_length)
qed

text \<open>An empty history: the clusterer rejects the empty frame and the error propagates.\<close>

lemma clusters_empty_history:
  assumes "session_execute lib uid = Inr []" and "DBSCAN_fit lib = validating_DBSCAN_fit"
  shows "clusters lib uid radius = Inl ValueError"
  using assms by (simp add: clusters_def validating_DBSCAN_fit_def)

lemma location_alert_no_cluster:
  assumes "clusters lib uid 260 = Inr data" and "list_all (\<lambda>r. snd r < 0) data"
  shows "location_alert lib uid lon lat = Inr True"
  using assms by (simp add: location_alert_eq regions_no_cluster)

section \<open>The clusters of core points\<close>

lemma set_expand:
  "set S \<subseteq> set C \<Longrightarrow> set (expand nb C S) = grow (core_rel nb C) (set S)"
  by (auto simp: expand_def grow_def core_rel_def list_ex_iff)

lemma grow_subset: "R \<subseteq> A \<times> A \<Longrightarrow> T \<subseteq> A \<Longrightarrow> grow R T \<subseteq> A"
  by (auto simp: grow_def)

lemma core_rel_subset: "core_rel nb C \<subseteq> set C \<times> set C"
  by (auto simp: core_rel_def)

lemma set_funpow_expand:
  "set S \<subseteq> set C \<Longrightarrow>
   set (((expand nb C) ^^ n) S) = ((grow (core_rel nb C)) ^^ n) (set S) \<and>
   set (((expand nb C) ^^ n) S) \<subseteq> set C"
proof (induction n)
  case 0
  then show ?case by auto
next
  case (Suc n)
  note both = Suc.IH[OF Suc.prems]
  have IH: "set (((expand nb C) ^^ n) S) = ((grow (core_rel nb C)) ^^ n) (set S)"
    using both by (rule conjunct1)
  have sub: "set (((expand nb C) ^^ n) S) \<subseteq> set C"
    using both by (rule conjunct2)
  have "set (((expand nb C) ^^ Suc n) S) = grow (core_rel nb C) (set (((expand nb C) ^^ n) S))"
    using set_expand[OF sub] by simp
  moreover have "grow (core_rel nb C) (set (((expand nb C) ^^ n) S)) \<subseteq> set C"
    using grow_subset[OF core_rel_subset sub] .
  ultimately show ?case using IH by simp
qed

lemma funpow_grow_mono: "T \<subseteq> ((grow R) ^^ n) T"
proof (induction n)
  case 0
  then show ?case by simp
next
  case (Suc n)
  then show ?case by (auto simp: grow_def)
qed

lemma funpow_grow_reachable: "((grow R) ^^ n) T \<subseteq> R\<^sup>* `` T"
proof (induction n)
  case 0
  then show ?case by auto
next
  case (Suc n)
  have "grow R (((grow R) ^^ n) T) \<subseteq> R\<^sup>* `` T"
  proof
    fix y assume "y \<in> grow R (((grow R) ^^ n) T)"
    then consider "y \<in> ((grow R) ^^ n) T" | x where "x \<in> ((grow R) ^^ n) T" "(x, y) \<in> R"
      by (auto simp: grow_def)
    then show "y \<in> R\<^sup>* `` T"
    proof cases
      case 1
      then show ?thesis using Suc by auto
    next
      case 2
      then obtain t where "t \<in> T" "(t, x) \<in> R\<^sup>*" using Suc by auto
      with 2 show ?thesis by (auto intro: rtrancl_into_rtrancl)
    qed
  qed
  then show ?case by simp
qed

lemma closed_contains_reachable:
  assumes "grow R U = U" and "T \<subseteq> U"
  shows "R\<^sup>* `` T \<subseteq> U"
proof
  fix y assume "y \<in> R\<^sup>* `` T"
  then obtain t where t: "t \<in> T" and reach: "(t, y) \<in> R\<^sup>*" by auto
  from reach show "y \<in> U"
  proof (induction rule: rtrancl_induct)
    case base
    then show ?case using t assms(2) by auto
  next
    case (step y z)
    then have "z \<in> grow R U" by (auto simp: grow_def)
    then show ?case using assms(1) by simp
  qed
qed

lemma funpow_grow_subset: "R \<subseteq> A \<times> A \<Longrightarrow> T \<subseteq> A \<Longrightarrow> ((grow R) ^^ n) T \<subseteq> A"
proof (induction n)
  case 0
  then show ?case by simp
next
  case (Suc n)
  then show ?case using grow_subset[of R A] by simp
qed

text \<open>
  Until the expansion is stable each step adds a point, so within a finite set \<open>A\<close> it is
  stable after \<open>card A\<close> steps from a non-empty start.
\<close>

lemma funpow_grow_progress:
  assumes "finite A" and "R \<subseteq> A \<times> A" and "T \<subseteq> A"
  shows "grow R (((grow R) ^^ n) T) = ((grow R) ^^ n) T \<or> card T + n \<le> card (((grow R) ^^ n) T)"
proof (induction n)
  case 0
  then show ?case by simp
next
  case (Suc n)
  define U where "U = ((grow R) ^^ n) T"
  have U_sub: "U \<subseteq> A"
    unfolding U_def using assms(2,3) by (rule funpow_grow_subset)
  have gU_sub: "grow R U \<subseteq> A" using grow_subset[OF assms(2) U_sub] .
  show ?case
  proof (cases "grow R U = U")
    case True
    then show ?thesis by (simp add: U_def[symmetric])
  next
    case False
    then have "U \<subset> grow R U" by (auto simp: grow_def)
    moreover have "finite (grow R U)" using gU_sub assms(1) by (rule finite_subset)
    ultimately have "card U < card (grow R U)" by (rule psubset_card_mono[rotated])
    moreover have "card T + n \<le> card U"
      using Suc False by (simp add: U_def[symmetric])
    ultimately have "card T + Suc n \<le> card (grow R U)" by simp
    then show ?thesis by (simp add: U_def[symmetric])
  qed
qed

lemma funpow_grow_closure:
  assumes "finite A" and "R \<subseteq> A \<times> A" and "T \<subseteq> A" and "card A < card T + n"
  shows "((grow R) ^^ n) T = R\<^sup>* `` T"
proof -
  define U where "U = ((grow R) ^^ n) T"
  have "U \<subseteq> R\<^sup>* `` T" unfolding U_def by (rule funpow_grow_reachable)
  also have "R\<^sup>* `` T \<subseteq> T \<union> A"
  proof
    fix y assume "y \<in> R\<^sup>* `` T"
    then obtain t where t: "t \<in> T" and reach: "(t, y) \<in> R\<^sup>*" by auto
    from reach show "y \<in> T \<union> A"
      using t assms(2) by (induction rule: rtrancl_induct) auto
  qed
  finally have "U \<subseteq> A" using assms(3) by auto
  then have "card U \<le> card A" using assms(1) by (rule card_mono[rotated])
  then have "\<not> card T + n \<le> card U" using assms(4) by simp
  then have "grow R U = U"
    using funpow_grow_progress[OF assms(1-3), of n] by (simp add: U_def)
  moreover have "T \<subseteq> U" unfolding U_def by (rule funpow_grow_mono)
  ultimately have "R\<^sup>* `` T \<subseteq> U" by (rule closed_contains_reachable)
  moreover have "U \<subseteq> R\<^sup>* `` T" unfolding U_def by (rule funpow_grow_reachable)
  ultimately show ?thesis by (simp add: U_def)
qed

text \<open>The cluster that \<open>component\<close> computes for a core point is its class.\<close>

lemma set_component:
  assumes "distinct C" and "c \<in> set C"
  shows "set (component nb C c) = (core_rel nb C)\<^sup>* `` {c}"
proof -
  have sub: "set [c] \<subseteq> set C" using assms(2) by simp
  have "set (component nb C c) = ((grow (core_rel nb C)) ^^ length C) {c}"
    using set_funpow_expand[OF sub, where nb = nb and n = "length C"] by (simp add: component_def)
  also have "\<dots> = (core_rel nb C)\<^sup>* `` {c}"
  proof (rule funpow_grow_closure[of "set C"])
    show "card (set C) < card {c} + length C"
      using assms(1) by (simp add: distinct_card)
  qed (use assms(2) core_rel_subset in auto)
  finally show ?thesis .
qed

section \<open>The numbering of the clusters\<close>

lemma map_of_const: "map_of (map (\<lambda>q. (q, k)) ys) p = (if p \<in> set ys then Some k else None)"
  by (induction ys) auto

lemma map_of_extend:
  "map_of (tbl @ map (\<lambda>q. (q, k)) ys) p =
     (case map_of tbl p of Some j \<Rightarrow> Some j | None \<Rightarrow> if p \<in> set ys then Some k else None)"
  by (simp add: map_add_def map_of_const split: option.splits)

lemma core_rel_sym: "symp nb \<Longrightarrow> sym (core_rel nb C)"
  by (auto simp: sym_def core_rel_def dest: sympD)

lemma tbl_inv_step:
  assumes inv: "tbl_inv Q A k tbl" and k: "0 \<le> k" and new: "map_of tbl c = None"
    and cls: "set ys = Q `` {c}" and sub: "Q `` {c} \<subseteq> A"
    and sym: "sym Q" and trans: "trans Q"
  shows "tbl_inv Q A (k + 1) (tbl @ map (\<lambda>q. (q, k)) ys)"
proof -
  let ?t = "tbl @ map (\<lambda>q. (q, k)) ys"
  from inv have i1: "\<And>p j. map_of tbl p = Some j \<Longrightarrow> p \<in> A \<and> 0 \<le> j \<and> j < k"
    and i2: "\<And>p q j. map_of tbl p = Some j \<Longrightarrow> (p, q) \<in> Q \<Longrightarrow> map_of tbl q = Some j"
    and i3: "\<And>p q j. map_of tbl p = Some j \<Longrightarrow> map_of tbl q = Some j \<Longrightarrow> (p, q) \<in> Q"
    unfolding tbl_inv_def by blast+
  have fresh: "map_of tbl q = None" if "(c, q) \<in> Q" for q
  proof (rule ccontr)
    assume "map_of tbl q \<noteq> None"
    then obtain j where "map_of tbl q = Some j" by auto
    moreover have "(q, c) \<in> Q" using sym that by (rule symD)
    ultimately have "map_of tbl c = Some j" by (rule i2)
    with new show False by simp
  qed
  have look: "map_of ?t p = Some j \<longleftrightarrow>
      map_of tbl p = Some j \<or> ((c, p) \<in> Q \<and> j = k)" for p j
  proof (cases "map_of tbl p")
    case None
    then show ?thesis using cls by (auto simp: map_of_extend simp del: map_of_append)
  next
    case (Some j')
    then have "(c, p) \<notin> Q" using fresh[of p] by auto
    with Some show ?thesis by (simp add: map_of_extend del: map_of_append)
  qed
  have c1: "p \<in> A \<and> 0 \<le> j \<and> j < k + 1" if "map_of ?t p = Some j" for p j
  proof -
    from that consider "map_of tbl p = Some j" | "(c, p) \<in> Q" "j = k"
      unfolding look by blast
    then show ?thesis
    proof cases
      case 1
      then show ?thesis using i1 by force
    next
      case 2
      with sub k show ?thesis by auto
    qed
  qed
  have c2: "map_of ?t q = Some j" if "map_of ?t p = Some j" and pq: "(p, q) \<in> Q" for p q j
  proof -
    from that(1) consider "map_of tbl p = Some j" | "(c, p) \<in> Q" "j = k"
      unfolding look by blast
    then show ?thesis
    proof cases
      case 1
      then have "map_of tbl q = Some j" using pq by (rule i2)
      then show ?thesis unfolding look by simp
    next
      case 2
      have "(c, q) \<in> Q" using trans 2(1) pq by (rule transD)
      with 2 show ?thesis unfolding look by simp
    qed
  qed
  have c3: "(p, q) \<in> Q" if p: "map_of ?t p = Some j" and q: "map_of ?t q = Some j" for p q j
  proof -
    from p consider (old) "map_of tbl p = Some j" | (new) "(c, p) \<in> Q" "j = k"
      unfolding look by blast
    then show ?thesis
    proof cases
      case old
      then have "j < k" using i1 by blast
      with q have "map_of tbl q = Some j" unfolding look by auto
      with old show ?thesis by (rule i3)
    next
      case new
      have "map_of tbl q \<noteq> Some j"
        using i1[of q j] new(2) by auto
      with q have "(c, q) \<in> Q" unfolding look by auto
      moreover have "(p, c) \<in> Q" using sym new(1) by (rule symD)
      ultimately show ?thesis using trans by (meson transD)
    qed
  qed
  have a: "\<forall>p j. map_of ?t p = Some j \<longrightarrow> p \<in> A \<and> 0 \<le> j \<and> j < k + 1"
    using c1 by blast
  have b: "\<forall>p q j. map_of ?t p = Some j \<longrightarrow> (p, q) \<in> Q \<longrightarrow> map_of ?t q = Some j"
    using c2 by blast
  have c: "\<forall>p q j. map_of ?t p = Some j \<longrightarrow> map_of ?t q = Some j \<longrightarrow> (p, q) \<in> Q"
    using c3 by blast
  show ?thesis
    unfolding tbl_inv_def by (rule conjI[OF a conjI[OF b c]])
qed

lemma number_clusters_inv:
  assumes "distinct C" and sym: "symp nb"
  shows "set cs \<subseteq> set C \<Longrightarrow> 0 \<le> k \<Longrightarrow> tbl_inv ((core_rel nb C)\<^sup>*) (set C) k tbl \<Longrightarrow>
    \<exists>k'. tbl_inv ((core_rel nb C)\<^sup>*) (set C) k' (number_clusters nb C cs k tbl) \<and>
         (\<forall>p j. map_of tbl p = Some j \<longrightarrow> map_of (number_clusters nb C cs k tbl) p = Some j) \<and>
         (\<forall>c \<in> set cs. map_of (number_clusters nb C cs k tbl) c \<noteq> None)"
proof (induction cs arbitrary: k tbl)
  case Nil
  then show ?case by auto
next
  case (Cons c cs)
  let ?Q = "(core_rel nb C)\<^sup>*"
  from Cons.prems have c: "c \<in> set C" and cs: "set cs \<subseteq> set C" by simp_all
  show ?case
  proof (cases "map_of tbl c")
    case (Some j)
    from Cons.IH[OF cs Cons.prems(2,3)] obtain k' where
      "tbl_inv ?Q (set C) k' (number_clusters nb C cs k tbl)"
      and ext: "\<forall>p j. map_of tbl p = Some j \<longrightarrow> map_of (number_clusters nb C cs k tbl) p = Some j"
      and all: "\<forall>c \<in> set cs. map_of (number_clusters nb C cs k tbl) c \<noteq> None"
      by blast
    moreover have "map_of (number_clusters nb C cs k tbl) c \<noteq> None"
      using ext Some by auto
    moreover have "number_clusters nb C (c # cs) k tbl = number_clusters nb C cs k tbl"
      using Some by simp
    ultimately show ?thesis
      by (intro exI[of _ k']) simp
  next
    case None
    let ?t = "tbl @ map (\<lambda>q. (q, k)) (component nb C c)"
    have cls: "set (component nb C c) = ?Q `` {c}"
      using assms(1) c by (rule set_component)
    have "set [c] \<subseteq> set C" using c by simp
    then have "set (component nb C c) \<subseteq> set C"
      unfolding component_def by (rule set_funpow_expand[THEN conjunct2])
    then have sub: "?Q `` {c} \<subseteq> set C"
      by (simp only: cls)
    have "sym ?Q" using core_rel_sym[OF sym, of C] by (rule sym_rtrancl)
    then have inv': "tbl_inv ?Q (set C) (k + 1) ?t"
      using tbl_inv_step[OF Cons.prems(3,2) None cls sub] by (simp add: trans_rtrancl)
    have "0 \<le> k + 1" using Cons.prems(2) by simp
    from Cons.IH[OF cs this inv'] obtain k' where
      res: "tbl_inv ?Q (set C) k' (number_clusters nb C cs (k + 1) ?t)"
      and ext: "\<forall>p j. map_of ?t p = Some j \<longrightarrow> map_of (number_clusters nb C cs (k + 1) ?t) p = Some j"
      and all: "\<forall>c \<in> set cs. map_of (number_clusters nb C cs (k + 1) ?t) c \<noteq> None"
      by blast
    have old: "map_of ?t p = Some j" if "map_of tbl p = Some j" for p j
      using that by (simp add: map_of_extend del: map_of_append)
    have "c \<in> set (component nb C c)" using cls by auto
    then have "map_of ?t c = Some k" using None by (simp add: map_of_extend del: map_of_append)
    with ext have new: "map_of (number_clusters nb C cs (k + 1) ?t) c \<noteq> None" by auto
    have eq: "number_clusters nb C (c # cs) k tbl = number_clusters nb C cs (k + 1) ?t"
      using None by simp
    have "\<forall>p j. map_of tbl p = Some j \<longrightarrow> map_of (number_clusters nb C cs (k + 1) ?t) p = Some j"
      using ext old by blast
    with res all new show ?thesis
      unfolding eq by (intro exI[of _ k']) simp
  qed
qed

text \<open>
  The ids of the core points: every core point has an id, which is not negative, and two
  core points have the same id exactly when they are connected.
\<close>

lemma number_clusters_ids:
  assumes "distinct C" and sym: "symp nb"
  obtains ident where
    "\<And>p. p \<in> set C \<Longrightarrow> map_of (number_clusters nb C C 0 []) p = Some (ident p) \<and> 0 \<le> ident p"
    "\<And>p q. p \<in> set C \<Longrightarrow> q \<in> set C \<Longrightarrow> ident p = ident q \<longleftrightarrow> (p, q) \<in> (core_rel nb C)\<^sup>*"
proof -
  let ?Q = "(core_rel nb C)\<^sup>*"
  let ?t = "number_clusters nb C C 0 []"
  have "tbl_inv ?Q (set C) 0 []" by (simp add: tbl_inv_def)
  from number_clusters_inv[OF assms subset_refl _ this] obtain k' where
    inv: "tbl_inv ?Q (set C) k' ?t" and all: "\<forall>c \<in> set C. map_of ?t c \<noteq> None"
    by auto
  from inv have i1: "\<And>p j. map_of ?t p = Some j \<Longrightarrow> 0 \<le> j"
    and i2: "\<And>p q j. map_of ?t p = Some j \<Longrightarrow> (p, q) \<in> ?Q \<Longrightarrow> map_of ?t q = Some j"
    and i3: "\<And>p q j. map_of ?t p = Some j \<Longrightarrow> map_of ?t q = Some j \<Longrightarrow> (p, q) \<in> ?Q"
    unfolding tbl_inv_def by blast+
  define ident where "ident p = the (map_of ?t p)" for p
  have some: "map_of ?t p = Some (ident p)" if "p \<in> set C" for p
    using all that by (auto simp: ident_def)
  show thesis
  proof (rule that[of ident])
    fix p assume "p \<in> set C"
    then show "map_of ?t p = Some (ident p) \<and> 0 \<le> ident p"
      using some i1 by blast
  next
    fix p q assume "p \<in> set C" "q \<in> set C"
    then have p: "map_of ?t p = Some (ident p)" and q: "map_of ?t q = Some (ident q)"
      using some by blast+
    show "ident p = ident q \<longleftrightarrow> (p, q) \<in> ?Q"
    proof
      assume "ident p = ident q"
      with p q show "(p, q) \<in> ?Q" using i3 by metis
    next
      assume "(p, q) \<in> ?Q"
      with p have "map_of ?t q = Some (ident p)" by (rule i2)
      with q show "ident p = ident q" by simp
    qed
  qed
qed

section \<open>The labels and the order of the input\<close>

lemma dbscan_lab: "dbscan nb ms X = map (lab nb ms X) X"
  by (simp add: dbscan_def lab_def cores_def Let_def)

lemma set_cores: "set (cores nb ms X) = {p \<in> set X. is_core nb ms X p}"
  by (auto simp: cores_def)

lemma find_SomeD: "find P xs = Some x \<Longrightarrow> x \<in> set xs \<and> P x"
  by (induction xs) (auto split: if_splits)

lemma anchor_core: "anchor nb ms X p = Some a \<Longrightarrow> p \<in> set X \<Longrightarrow> a \<in> set (cores nb ms X)"
  by (auto simp: anchor_def set_cores split: if_splits dest: find_SomeD)

text \<open>The label of a point is the id of its anchor, and NOISE when it has none.\<close>

lemma lab_anchor:
  assumes sym: "symp nb"
  obtains ident where
    "\<And>p. p \<in> set X \<Longrightarrow>
       lab nb ms X p = (case anchor nb ms X p of Some a \<Rightarrow> ident a | None \<Rightarrow> - 1)"
    "\<And>a. a \<in> set (cores nb ms X) \<Longrightarrow> 0 \<le> ident a"
    "\<And>a b. a \<in> set (cores nb ms X) \<Longrightarrow> b \<in> set (cores nb ms X) \<Longrightarrow>
       ident a = ident b \<longleftrightarrow> (a, b) \<in> (core_rel nb (cores nb ms X))\<^sup>*"
proof -
  let ?C = "cores nb ms X"
  have "distinct ?C" by (simp add: cores_def)
  then obtain ident where
    tbl: "\<And>p. p \<in> set ?C \<Longrightarrow> map_of (number_clusters nb ?C ?C 0 []) p = Some (ident p) \<and> 0 \<le> ident p"
    and eq: "\<And>p q. p \<in> set ?C \<Longrightarrow> q \<in> set ?C \<Longrightarrow> ident p = ident q \<longleftrightarrow> (p, q) \<in> (core_rel nb ?C)\<^sup>*"
    using number_clusters_ids[OF _ sym, of ?C] by blast
  show thesis
  proof (rule that[of ident])
    fix p assume p: "p \<in> set X"
    show "lab nb ms X p = (case anchor nb ms X p of Some a \<Rightarrow> ident a | None \<Rightarrow> - 1)"
    proof (cases "is_core nb ms X p")
      case True
      then have "p \<in> set ?C" using p by (simp add: set_cores)
      then have "map_of (number_clusters nb ?C ?C 0 []) p = Some (ident p)" using tbl by blast
      then show ?thesis using True by (simp add: lab_def label_of_def anchor_def)
    next
      case False
      show ?thesis
      proof (cases "find (nb p) ?C")
        case None
        then show ?thesis using False by (simp add: lab_def label_of_def anchor_def)
      next
        case (Some c)
        then have "c \<in> set ?C" by (auto dest: find_SomeD)
        then have "map_of (number_clusters nb ?C ?C 0 []) c = Some (ident c)" using tbl by blast
        then show ?thesis using False Some by (simp add: lab_def label_of_def anchor_def)
      qed
    qed
  next
    fix a assume "a \<in> set ?C"
    then show "0 \<le> ident a" using tbl by blast
  next
    fix a b assume "a \<in> set ?C" "b \<in> set ?C"
    then show "ident a = ident b \<longleftrightarrow> (a, b) \<in> (core_rel nb ?C)\<^sup>*" by (rule eq)
  qed
qed

lemma lab_eq_iff:
  assumes sym: "symp nb" and p: "p \<in> set X" and q: "q \<in> set X"
  shows "lab nb ms X p = lab nb ms X q \<longleftrightarrow>
         rel_option (\<lambda>a b. (a, b) \<in> (core_rel nb (cores nb ms X))\<^sup>*)
           (anchor nb ms X p) (anchor nb ms X q)"
proof -
  obtain ident where
    l: "\<And>p. p \<in> set X \<Longrightarrow>
       lab nb ms X p = (case anchor nb ms X p of Some a \<Rightarrow> ident a | None \<Rightarrow> - 1)"
    and nn: "\<And>a. a \<in> set (cores nb ms X) \<Longrightarrow> 0 \<le> ident a"
    and eq: "\<And>a b. a \<in> set (cores nb ms X) \<Longrightarrow> b \<in> set (cores nb ms X) \<Longrightarrow>
       ident a = ident b \<longleftrightarrow> (a, b) \<in> (core_rel nb (cores nb ms X))\<^sup>*"
    using lab_anchor[OF sym, where X = X and ms = ms] by blast
  show ?thesis
  proof (cases "anchor nb ms X p")
    case None
    show ?thesis
    proof (cases "anchor nb ms X q")
      case None
      with \<open>anchor nb ms X p = None\<close> show ?thesis by (simp add: l p q)
    next
      case (Some b)
      have "b \<in> set (cores nb ms X)" using Some q by (rule anchor_core)
      then have "0 \<le> ident b" by (rule nn)
      with Some None show ?thesis by (simp add: l p q)
    qed
  next
    case (Some a)
    have a: "a \<in> set (cores nb ms X)" using Some p by (rule anchor_core)
    show ?thesis
    proof (cases "anchor nb ms X q")
      case None
      have "0 \<le> ident a" using a by (rule nn)
      with Some None show ?thesis by (simp add: l p q)
    next
      case (Some b)
      have b: "b \<in> set (cores nb ms X)" using Some q by (rule anchor_core)
      show ?thesis
        using \<open>anchor nb ms X p = Some a\<close> Some eq[OF a b] by (simp add: l p q)
    qed
  qed
qed

lemma lab_noise_iff:
  assumes sym: "symp nb" and p: "p \<in> set X"
  shows "0 \<le> lab nb ms X p \<longleftrightarrow> anchor nb ms X p \<noteq> None"
proof -
  obtain ident where
    l: "\<And>p. p \<in> set X \<Longrightarrow>
       lab nb ms X p = (case anchor nb ms X p of Some a \<Rightarrow> ident a | None \<Rightarrow> - 1)"
    and nn: "\<And>a. a \<in> set (cores nb ms X) \<Longrightarrow> 0 \<le> ident a"
    and eq: "\<And>a b. a \<in> set (cores nb ms X) \<Longrightarrow> b \<in> set (cores nb ms X) \<Longrightarrow>
       ident a = ident b \<longleftrightarrow> (a, b) \<in> (core_rel nb (cores nb ms X))\<^sup>*"
    using lab_anchor[OF sym, where X = X and ms = ms] by blast
  show ?thesis
  proof (cases "anchor nb ms X p")
    case None
    then show ?thesis by (simp add: l p)
  next
    case (Some a)
    have "a \<in> set (cores nb ms X)" using Some p by (rule anchor_core)
    then have "0 \<le> ident a" by (rule nn)
    with Some show ?thesis by (simp add: l p)
  qed
qed

subsection \<open>Reordering the input\<close>

lemma is_core_perm: "mset X' = mset X \<Longrightarrow> is_core nb ms X' p = is_core nb ms X p"
proof -
  assume perm: "mset X' = mset X"
  have "length (filter (nb p) Y) = size (filter_mset (nb p) (mset Y))" for Y
    by (simp only: mset_filter[symmetric] size_mset)
  then show ?thesis using perm by (simp add: is_core_def)
qed

lemma set_cores_perm: "mset X' = mset X \<Longrightarrow> set (cores nb ms X') = set (cores nb ms X)"
proof -
  assume perm: "mset X' = mset X"
  then have "set X' = set X" by (rule mset_eq_setD)
  then show ?thesis by (simp add: set_cores is_core_perm[OF perm])
qed

lemma core_rel_cong: "set C' = set C \<Longrightarrow> core_rel nb C' = core_rel nb C"
  by (simp add: core_rel_def)

text \<open>
  With \<open>minSamples \<le> 3\<close> a border point has one core point in reach only: with two of
  them its neighbourhood would hold three points, itself included.
\<close>

lemma border_unique:
  assumes ms: "ms \<le> 3" and border: "\<not> is_core nb ms X p" and p: "p \<in> set X" "nb p p"
    and c: "c \<in> set (cores nb ms X)" "nb p c" and c': "c' \<in> set (cores nb ms X)" "nb p c'"
  shows "c = c'"
proof (rule ccontr)
  assume neq: "c \<noteq> c'"
  from c c' border have "p \<noteq> c" "p \<noteq> c'" by (auto simp: set_cores)
  with neq have "card {p, c, c'} = 3" by simp
  moreover have "{p, c, c'} \<subseteq> set (filter (nb p) X)"
    using p c c' by (auto simp: set_cores)
  then have "card {p, c, c'} \<le> card (set (filter (nb p) X))"
    by (intro card_mono) simp_all
  moreover have "card (set (filter (nb p) X)) \<le> length (filter (nb p) X)"
    by (rule card_length)
  ultimately have "3 \<le> length (filter (nb p) X)" by linarith
  with ms border show False by (simp add: is_core_def)
qed

lemma anchor_perm:
  assumes perm: "mset X' = mset X" and ms: "ms \<le> 3"
    and refl: "\<forall>a b. nb a b \<longrightarrow> nb a a" and p: "p \<in> set X"
  shows "anchor nb ms X' p = anchor nb ms X p"
proof (cases "is_core nb ms X p")
  case True
  then show ?thesis using is_core_perm[OF perm] by (simp add: anchor_def)
next
  case False
  let ?C = "cores nb ms X" and ?C' = "cores nb ms X'"
  have sets: "set ?C' = set ?C" using perm by (rule set_cores_perm)
  have "find (nb p) ?C' = find (nb p) ?C"
  proof (cases "find (nb p) ?C")
    case None
    then have "\<not> (\<exists>c \<in> set ?C'. nb p c)" using sets by (auto simp: find_None_iff)
    then have "find (nb p) ?C' = None" by (auto simp: find_None_iff)
    with None show ?thesis by simp
  next
    case (Some c)
    then have c: "c \<in> set ?C" "nb p c" by (auto dest: find_SomeD)
    then have "find (nb p) ?C' \<noteq> None" using sets by (auto simp: find_None_iff)
    then obtain c' where Some': "find (nb p) ?C' = Some c'" by auto
    then have c': "c' \<in> set ?C" "nb p c'" using sets by (auto dest: find_SomeD)
    have "nb p p" using refl c(2) by blast
    with ms False p have "c = c'"
      using c c' by (rule border_unique)
    with Some Some' show ?thesis by simp
  qed
  with False show ?thesis using is_core_perm[OF perm] by (simp add: anchor_def)
qed

text \<open>
  The partition does not depend on the order of the input: two points have the same label
  for one order exactly when they have the same label for the other, and a point is NOISE
  for one exactly when it is for the other. The values of the labels may differ.
\<close>

lemma lab_perm:
  assumes perm: "mset X' = mset X" and ms: "ms \<le> 3"
    and sym: "symp nb" and refl: "\<forall>a b. nb a b \<longrightarrow> nb a a"
    and p: "p \<in> set X" and q: "q \<in> set X"
  shows "(lab nb ms X' p = lab nb ms X' q \<longleftrightarrow> lab nb ms X p = lab nb ms X q) \<and>
         (0 \<le> lab nb ms X' p \<longleftrightarrow> 0 \<le> lab nb ms X p)"
proof -
  have sets: "set X' = set X" using perm by (rule mset_eq_setD)
  have rel: "core_rel nb (cores nb ms X') = core_rel nb (cores nb ms X)"
    using set_cores_perm[OF perm] by (rule core_rel_cong)
  have ap: "anchor nb ms X' p = anchor nb ms X p" using perm ms refl p by (rule anchor_perm)
  have aq: "anchor nb ms X' q = anchor nb ms X q" using perm ms refl q by (rule anchor_perm)
  have p': "p \<in> set X'" and q': "q \<in> set X'" using p q sets by simp_all
  show ?thesis
    using lab_eq_iff[OF sym p q, where ms = ms] lab_eq_iff[OF sym p' q', where ms = ms]
      lab_noise_iff[OF sym p, where ms = ms] lab_noise_iff[OF sym p', where ms = ms]
    by (simp add: rel ap aq)
qed

section \<open>The Verdict and the order of the history\<close>

lemma inside_iff:
  "(\<exists>h \<in> set (regions lib data). in_hull lib p h = Inr True) \<longleftrightarrow>
   (\<exists>cl \<in> snd ` set data. 0 \<le> cl \<and> covers lib p (members data cl))"
  by (auto simp: regions_eq covers_def list_ex_iff)

lemma members_labelled: "members (map (\<lambda>x. (x, f x)) X) cl = filter (\<lambda>x. f x = cl) X"
  by (simp add: members_def filter_map comp_def)

lemma inside_labelled:
  "(\<exists>h \<in> set (regions lib (map (\<lambda>x. (x, f x)) X)). in_hull lib p h = Inr True) \<longleftrightarrow>
   (\<exists>x \<in> set X. 0 \<le> f x \<and> covers lib p (filter (\<lambda>y. f y = f x) X))"
  by (auto simp: inside_iff members_labelled image_iff)

lemma inside_perm:
  assumes perm: "mset X' = mset X" and free: "order_free lib"
    and part: "\<And>x y. x \<in> set X \<Longrightarrow> y \<in> set X \<Longrightarrow>
                 (f' x = f' y \<longleftrightarrow> f x = f y) \<and> (0 \<le> f' x \<longleftrightarrow> 0 \<le> f x)"
  shows "(\<exists>h \<in> set (regions lib (map (\<lambda>x. (x, f' x)) X')). in_hull lib p h = Inr True) \<longleftrightarrow>
         (\<exists>h \<in> set (regions lib (map (\<lambda>x. (x, f x)) X)). in_hull lib p h = Inr True)"
proof -
  have sets: "set X' = set X" using perm by (rule mset_eq_setD)
  have same: "covers lib p (filter (\<lambda>y. f' y = f' x) X') = covers lib p (filter (\<lambda>y. f y = f x) X)"
    if x: "x \<in> set X" for x
  proof -
    have "mset (filter (\<lambda>y. f' y = f' x) X') = filter_mset (\<lambda>y. f' y = f' x) (mset X)"
      using perm by (simp only: mset_filter)
    also have "\<dots> = filter_mset (\<lambda>y. f y = f x) (mset X)"
      using part x by (intro filter_mset_cong) (auto simp: eq_commute)
    also have "\<dots> = mset (filter (\<lambda>y. f y = f x) X)" by (simp only: mset_filter)
    finally show ?thesis using free unfolding order_free_def by blast
  qed
  have "(\<exists>x \<in> set X'. 0 \<le> f' x \<and> covers lib p (filter (\<lambda>y. f' y = f' x) X')) \<longleftrightarrow>
        (\<exists>x \<in> set X. 0 \<le> f x \<and> covers lib p (filter (\<lambda>y. f y = f x) X))"
    unfolding sets using same part by blast
  then show ?thesis by (simp only: inside_labelled)
qed

text \<open>The neighbourhood test is the Euclidean distance of the specification.\<close>

lemma within_eps_euclidean:
  "within_eps eps (Finite x1, Finite y1) (Finite x2, Finite y2) \<longleftrightarrow>
     sqrt ((x1 - x2)\<^sup>2 + (y1 - y2)\<^sup>2) \<le> eps"
proof -
  let ?d = "(x1 - x2)\<^sup>2 + (y1 - y2)\<^sup>2"
  have nonneg: "0 \<le> ?d" by simp
  have "sqrt ?d \<le> eps \<longleftrightarrow> 0 \<le> eps \<and> ?d \<le> eps\<^sup>2"
  proof
    assume le: "sqrt ?d \<le> eps"
    have "0 \<le> sqrt ?d" using nonneg by simp
    with le have eps: "0 \<le> eps" by linarith
    have "(sqrt ?d)\<^sup>2 \<le> eps\<^sup>2"
      using le \<open>0 \<le> sqrt ?d\<close> by (rule power_mono)
    with nonneg eps show "0 \<le> eps \<and> ?d \<le> eps\<^sup>2" by simp
  next
    assume "0 \<le> eps \<and> ?d \<le> eps\<^sup>2"
    then show "sqrt ?d \<le> eps" by (simp add: real_le_lsqrt)
  qed
  then show ?thesis by (simp add: within_eps_def)
qed

lemma within_eps_sym: "symp (within_eps eps)"
proof (rule sympI)
  fix p q assume "within_eps eps p q"
  then show "within_eps eps q p"
    by (auto simp: within_eps_def power2_commute split: option.splits)
qed

lemma within_eps_refl: "\<forall>a b. within_eps eps a b \<longrightarrow> within_eps eps a a"
  by (auto simp: within_eps_def split: option.splits)

text \<open>
  With the clusterer of the specification and a library that is \<open>order_free\<close>, two
  histories that are reorderings of each other give the same Verdict.
\<close>

lemma location_alert_perm:
  assumes rows: "session_execute lib uid = Inr rows" and rows': "session_execute lib uid' = Inr rows'"
    and perm: "mset rows' = mset rows"
    and fit: "DBSCAN_fit lib = spec_DBSCAN_fit" and free: "order_free lib"
  shows "location_alert lib uid' lon lat = location_alert lib uid lon lat"
proof -
  let ?nb = "within_eps (260 / 111034.61)"
  have data: "clusters lib uid 260 = Inr (map (\<lambda>x. (x, lab ?nb 3 rows x)) rows)"
    using clusters_spec[OF rows fit, of 260]
    by (simp add: dbscan_lab zip_map2 zip_same_conv_map)
  have data': "clusters lib uid' 260 = Inr (map (\<lambda>x. (x, lab ?nb 3 rows' x)) rows')"
    using clusters_spec[OF rows' fit, of 260]
    by (simp add: dbscan_lab zip_map2 zip_same_conv_map)
  have part: "(lab ?nb 3 rows' x = lab ?nb 3 rows' y \<longleftrightarrow> lab ?nb 3 rows x = lab ?nb 3 rows y) \<and>
              (0 \<le> lab ?nb 3 rows' x \<longleftrightarrow> 0 \<le> lab ?nb 3 rows x)"
    if "x \<in> set rows" "y \<in> set rows" for x y
    using perm _ within_eps_sym within_eps_refl that by (rule lab_perm) simp
  show ?thesis
    using inside_perm[OF perm free part, where p = "(lon, lat)"]
    by (simp add: location_alert_eq data data')
qed

section \<open>The hull routine of the specification and the order of the points\<close>

lemma push_fst:
  "map fst st = map fst st' \<Longrightarrow> fst p = fst p' \<Longrightarrow> map fst (push st p) = map fst (push st' p')"
proof (induction st p arbitrary: st' rule: push.induct)
  case (1 b a st p)
  then obtain b' a' st'' where st': "st' = b' # a' # st''"
    and eqs: "fst b = fst b'" "fst a = fst a'" "map fst st = map fst st''"
    by (cases st'; cases "tl st'") auto
  show ?case
  proof (cases "cross (fst a) (fst b) (fst p) \<le> 0")
    case True
    then have "map fst (push (a # st) p) = map fst (push (a' # st'') p')"
      using 1 eqs by simp
    with True show ?thesis using eqs 1(3) by (simp add: st')
  next
    case False
    then show ?thesis using eqs 1(3) by (simp add: st')
  qed
qed auto

lemma foldl_push_fst:
  "map fst st = map fst st' \<Longrightarrow> map fst xs = map fst ys \<Longrightarrow>
   map fst (foldl push st xs) = map fst (foldl push st' ys)"
proof (induction xs arbitrary: ys st st')
  case Nil
  then show ?case by simp
next
  case (Cons x xs)
  then obtain y ys' where ys: "ys = y # ys'" and eqs: "fst x = fst y" "map fst xs = map fst ys'"
    by (cases ys) auto
  have "map fst (push st x) = map fst (push st' y)"
    using Cons.prems(1) eqs(1) by (rule push_fst)
  then show ?case
    using Cons.IH eqs(2) by (simp add: ys)
qed

lemma chain_fst: "map fst xs = map fst ys \<Longrightarrow> map fst (chain xs) = map fst (chain ys)"
proof -
  assume "map fst xs = map fst ys"
  then have "map fst (foldl push [] xs) = map fst (foldl push [] ys)"
    by (intro foldl_push_fst) simp_all
  moreover have "map fst (chain zs) = rev (tl (map fst (foldl push [] zs)))" for zs
    unfolding chain_def butlast_rev by (metis map_tl rev_map)
  ultimately show ?thesis by simp
qed

lemma set_push: "set (push st p) \<subseteq> insert p (set st)"
  by (induction st p rule: push.induct) auto

lemma set_foldl_push: "set (foldl push st xs) \<subseteq> set st \<union> set xs"
proof (induction xs arbitrary: st)
  case Nil
  then show ?case by simp
next
  case (Cons x xs)
  have "set (foldl push (push st x) xs) \<subseteq> set (push st x) \<union> set xs" by (rule Cons.IH)
  also have "\<dots> \<subseteq> insert x (set st) \<union> set xs" using set_push[of st x] by auto
  finally show ?case by auto
qed

lemma in_set_tl: "x \<in> set (tl xs) \<Longrightarrow> x \<in> set xs"
  by (cases xs) auto

lemma set_chain: "set (chain xs) \<subseteq> set xs"
proof -
  have "set (chain xs) \<subseteq> set (foldl push [] xs)"
    by (auto simp: chain_def butlast_rev dest: in_set_tl)
  also have "\<dots> \<subseteq> set xs" using set_foldl_push[of "[]" xs] by simp
  finally show ?thesis .
qed

lemma sorted_map_fst: "sorted (zs :: ('a::linorder \<times> 'b::linorder) list) \<Longrightarrow> sorted (map fst zs)"
proof (induction zs)
  case Nil
  then show ?case by simp
next
  case (Cons z zs)
  then have "\<forall>y \<in> set zs. z \<le> y" and rest: "sorted zs" by simp_all
  then have "\<forall>y \<in> set zs. fst z \<le> fst y"
    by (auto simp: less_eq_prod_def)
  with Cons.IH[OF rest] show ?case by simp
qed

lemma map_fst_sort_zip:
  "map fst (sort (zip rs [0..<length rs])) = sort (rs :: real point list)"
proof -
  let ?s = "sort (zip rs [0..<length rs])"
  have z: "map fst (zip rs [0..<length rs]) = rs"
    by (rule map_fst_zip) simp
  have "mset (map fst ?s) = image_mset fst (mset (zip rs [0..<length rs]))"
    by simp
  also have "\<dots> = mset rs"
    by (metis z mset_map)
  finally have "mset (map fst ?s) = mset rs" .
  moreover have "sorted (map fst ?s)" by (rule sorted_map_fst) simp
  ultimately show ?thesis by (rule properties_for_sort[symmetric])
qed

lemma those_map:
  "those (map f xs) =
     (if list_all (\<lambda>x. f x \<noteq> None) xs then Some (map (\<lambda>x. the (f x)) xs) else None)"
  by (induction xs) (auto split: option.splits)

text \<open>A cluster with fewer than 3 points has no hull.\<close>

lemma chain_short: "length xs < 3 \<Longrightarrow> length (chain xs) < 2"
proof -
  assume "length xs < 3"
  then consider "xs = []" | x where "xs = [x]" | x y where "xs = [x, y]"
    by (cases xs; cases "tl xs"; cases "tl (tl xs)") auto
  then show ?thesis
    by cases (simp_all add: chain_def)
qed

lemma spec_ConvexHull_few: "length pts < 3 \<Longrightarrow> spec_ConvexHull pts = None"
proof -
  assume few: "length pts < 3"
  show ?thesis
  proof (cases "those (map finite_pt pts)")
    case None
    then show ?thesis by (simp add: spec_ConvexHull_def)
  next
    case (Some rs)
    then have "length rs = length pts"
      by (auto simp: those_map split: if_splits)
    with few have len: "length (sort (zip rs [0..<length rs])) < 3" by simp
    then have "length (chain (sort (zip rs [0..<length rs]))) < 2"
      by (rule chain_short)
    moreover have "length (chain (rev (sort (zip rs [0..<length rs])))) < 2"
      using len by (intro chain_short) simp
    ultimately have "length (monotone_chain rs) < 3"
      by (simp add: monotone_chain_def Let_def)
    with Some show ?thesis by (simp add: spec_ConvexHull_def Let_def)
  qed
qed

lemma zip_index: "e \<in> set (zip rs [0..<length rs]) \<Longrightarrow> snd e < length rs \<and> rs ! snd e = fst e"
  by (auto simp: in_set_zip)

lemma monotone_chain_entries:
  "e \<in> set (chain (sort (zip rs [0..<length rs])) @ chain (rev (sort (zip rs [0..<length rs])))) \<Longrightarrow>
   snd e < length rs \<and> rs ! snd e = fst e"
proof -
  let ?s = "sort (zip rs [0..<length rs])"
  assume "e \<in> set (chain ?s @ chain (rev ?s))"
  then have "e \<in> set ?s" using set_chain[of ?s] set_chain[of "rev ?s"] by auto
  then have "e \<in> set (zip rs [0..<length rs])" by simp
  then show ?thesis by (rule zip_index)
qed

lemma monotone_chain_range: "list_all (\<lambda>i. i < length rs) (monotone_chain rs)"
  unfolding monotone_chain_def Let_def list_all_iff
  using monotone_chain_entries[of _ rs] by auto

lemma monotone_chain_points:
  "map (\<lambda>i. rs ! i) (monotone_chain rs) =
     map fst (chain (sort (zip rs [0..<length rs])) @ chain (rev (sort (zip rs [0..<length rs]))))"
  unfolding monotone_chain_def Let_def map_map
  by (rule map_cong[OF refl]) (simp add: monotone_chain_entries)

text \<open>
  The vertices of the hull, as points, depend on the points of the cluster only, not on
  their order.
\<close>

lemma hull_points_perm:
  assumes "mset rs' = mset rs"
  shows "map (\<lambda>i. rs' ! i) (monotone_chain rs') = map (\<lambda>i. rs ! i) (monotone_chain rs)"
proof -
  let ?s = "sort (zip rs [0..<length rs])" and ?s' = "sort (zip rs' [0..<length rs'])"
  have "sort rs' = sort rs"
    using assms by (metis sorted_list_of_multiset_mset)
  then have fst: "map fst ?s' = map fst ?s"
    by (simp only: map_fst_sort_zip)
  then have "map fst (rev ?s') = map fst (rev ?s)"
    by (simp only: rev_map[symmetric])
  then have "map fst (chain (rev ?s')) = map fst (chain (rev ?s))"
    by (rule chain_fst)
  moreover have "map fst (chain ?s') = map fst (chain ?s)"
    using fst by (rule chain_fst)
  ultimately show ?thesis
    by (simp only: monotone_chain_points map_append)
qed

lemma finite_pt_Some: "finite_pt p \<noteq> None \<Longrightarrow> p = (Finite (fst (the (finite_pt p))), Finite (snd (the (finite_pt p))))"
  by (cases p rule: finite_pt.cases) auto

lemma spec_try_hull:
  "try_hull spec_lib (Some pts) =
     (if list_all (\<lambda>x. finite_pt x \<noteq> None) pts
      then (let rs = map (\<lambda>x. the (finite_pt x)) pts;
                H = map (\<lambda>i. rs ! i) (monotone_chain rs)
            in if length H < 3 then []
               else [NdArray (map (\<lambda>r. (Finite (fst r), Finite (snd r))) H)])
      else [])"
proof (cases "list_all (\<lambda>x. finite_pt x \<noteq> None) pts")
  case False
  then show ?thesis
    by (simp add: try_hull_def spec_lib_def spec_ConvexHull_def those_map)
next
  case True
  define rs where "rs = map (\<lambda>x. the (finite_pt x)) pts"
  define vs where "vs = monotone_chain rs"
  have len: "length rs = length pts" by (simp add: rs_def)
  have range: "list_all (\<lambda>i. i < length pts) vs"
    using monotone_chain_range[of rs] by (simp add: vs_def len)
  have pt: "pts ! i = (Finite (fst (rs ! i)), Finite (snd (rs ! i)))" if "i < length pts" for i
  proof -
    have "finite_pt (pts ! i) \<noteq> None"
      using True that by (simp add: list_all_length)
    then show ?thesis
      using finite_pt_Some[of "pts ! i"] that by (simp add: rs_def)
  qed
  have verts: "map (\<lambda>i. pts ! i) vs = map (\<lambda>r. (Finite (fst r), Finite (snd r))) (map (\<lambda>i. rs ! i) vs)"
    using range pt by (simp add: list_all_iff)
  have those: "those (map finite_pt pts) = Some rs"
    using True by (simp only: those_map rs_def if_True)
  have hull: "ConvexHull spec_lib pts = (if length vs < 3 then None else Some vs)"
    by (simp add: spec_lib_def spec_ConvexHull_def those vs_def Let_def)
  have lhs: "try_hull spec_lib (Some pts) =
      (if length vs < 3 then [] else [NdArray (map (\<lambda>i. pts ! i) vs)])"
    using range by (simp add: try_hull_def hull)
  have rhs: "(if list_all (\<lambda>x. finite_pt x \<noteq> None) pts
      then (let rs = map (\<lambda>x. the (finite_pt x)) pts;
                H = map (\<lambda>i. rs ! i) (monotone_chain rs)
            in if length H < 3 then []
               else [NdArray (map (\<lambda>r. (Finite (fst r), Finite (snd r))) H)])
      else []) =
      (if length vs < 3 then [] else [NdArray (map (\<lambda>r. (Finite (fst r), Finite (snd r))) (map (\<lambda>i. rs ! i) vs))])"
    using True unfolding Let_def rs_def[symmetric] vs_def[symmetric] by simp
  show ?thesis
    unfolding lhs rhs verts ..
qed

lemma spec_try_hull_perm:
  assumes "mset pts' = mset pts"
  shows "try_hull spec_lib (Some pts') = try_hull spec_lib (Some pts)"
proof -
  have "set pts' = set pts" using assms by (rule mset_eq_setD)
  then have fin: "list_all (\<lambda>x. finite_pt x \<noteq> None) pts' = list_all (\<lambda>x. finite_pt x \<noteq> None) pts"
    by (simp add: list_all_iff)
  have "mset (map (\<lambda>x. the (finite_pt x)) pts') = mset (map (\<lambda>x. the (finite_pt x)) pts)"
    using assms by simp
  then have "map (\<lambda>i. map (\<lambda>x. the (finite_pt x)) pts' ! i) (monotone_chain (map (\<lambda>x. the (finite_pt x)) pts')) =
             map (\<lambda>i. map (\<lambda>x. the (finite_pt x)) pts ! i) (monotone_chain (map (\<lambda>x. the (finite_pt x)) pts))"
    by (rule hull_points_perm)
  then show ?thesis
    unfolding spec_try_hull fin Let_def by (simp only:)
qed

lemma spec_lib_order_free: "order_free spec_lib"
  unfolding order_free_def covers_def
proof (intro allI impI)
  fix p :: "float64 point" and pts pts' :: "float64 point list"
  assume "mset pts' = mset pts"
  then have "try_hull spec_lib (Some pts') = try_hull spec_lib (Some pts)"
    by (rule spec_try_hull_perm)
  then show "list_ex (\<lambda>h. in_hull spec_lib p h = Inr True) (try_hull spec_lib (Some pts')) =
             list_ex (\<lambda>h. in_hull spec_lib p h = Inr True) (try_hull spec_lib (Some pts))"
    by (simp only:)
qed

section \<open>The hull of the specification contains the points of the cluster\<close>

subsection \<open>Orientation and the lexicographic order\<close>

text \<open>
  The points are processed in lexicographic order, so the difference of a later and an
  earlier point is a vector that is not before the origin. A combination of two such
  vectors with non-negative coefficients is a non-negative multiple of a third one: this
  settles the sign of an orientation test from two others.
\<close>

lemma le_lexnn: "a \<le> b \<Longrightarrow> lexnn (fst b - fst a, snd b - snd a)"
  by (cases a; cases b) (auto simp: lexnn_def)

lemma neq_diff: "(a :: real point) \<noteq> b \<Longrightarrow> (fst b - fst a, snd b - snd a) \<noteq> (0, 0)"
  by (cases a; cases b) auto

lemma lex_comb:
  assumes x: "k * ux = m1 * v1x + m2 * v2x"
    and y: "k * uy = m1 * v1y + m2 * v2y"
    and m: "0 \<le> m1" "0 \<le> m2" and v: "lexnn (v1x, v1y)" "lexnn (v2x, v2y)"
    and u: "lexnn (ux, uy)" "(ux, uy) \<noteq> (0, 0)"
  shows "0 \<le> (k :: real)"
proof (rule ccontr)
  assume "\<not> 0 \<le> k"
  then have k: "k < 0" by simp
  have f1: "0 \<le> m1 * v1x" and f2: "0 \<le> m2 * v2x"
    using m v by (auto simp: lexnn_def intro: mult_nonneg_nonneg)
  show False
  proof (cases "0 < ux")
    case True
    then have "k * ux < 0" using k by (simp add: mult_neg_pos)
    with x f1 f2 show False by linarith
  next
    case False
    with u have u0: "ux = 0" and su: "0 < uy"
      by (auto simp: lexnn_def)
    from x u0 have "m1 * v1x + m2 * v2x = 0" by simp
    with f1 f2 have z1: "m1 * v1x = 0" and z2: "m2 * v2x = 0" by linarith+
    have s1: "0 \<le> m1 * v1y"
    proof (cases "m1 = 0")
      case True then show ?thesis by simp
    next
      case False
      with z1 have "v1x = 0" by simp
      with v(1) have "0 \<le> v1y" by (simp add: lexnn_def)
      with m(1) show ?thesis by simp
    qed
    have s2: "0 \<le> m2 * v2y"
    proof (cases "m2 = 0")
      case True then show ?thesis by simp
    next
      case False
      with z2 have "v2x = 0" by simp
      with v(2) have "0 \<le> v2y" by (simp add: lexnn_def)
      with m(2) show ?thesis by simp
    qed
    have "k * uy < 0" using k su by (simp add: mult_neg_pos)
    with y s1 s2 show False by linarith
  qed
qed

lemma id1_x: "cross a b d * (fst c - fst b) = cross a b c * (fst d - fst b) + cross b c d * (fst b - fst a)"
  by (simp add: cross_def algebra_simps)

lemma id1_y: "cross a b d * (snd c - snd b) = cross a b c * (snd d - snd b) + cross b c d * (snd b - snd a)"
  by (simp add: cross_def algebra_simps)

lemma id2_x: "cross b p q * (fst b - fst a) = cross a b q * (fst p - fst b) + cross a b p * (fst b - fst q)"
  by (simp add: cross_def algebra_simps)

lemma id2_y: "cross b p q * (snd b - snd a) = cross a b q * (snd p - snd b) + cross a b p * (snd b - snd q)"
  by (simp add: cross_def algebra_simps)

lemma id3_x: "cross a p q * (fst p - fst b) = (- cross a b p) * (fst p - fst q) + cross b p q * (fst p - fst a)"
  by (simp add: cross_def algebra_simps)

lemma id3_y: "cross a p q * (snd p - snd b) = (- cross a b p) * (snd p - snd q) + cross b p q * (snd p - snd a)"
  by (simp add: cross_def algebra_simps)

lemma id4_x: "cross a p q * (fst b - fst a) = cross a b q * (fst p - fst a) + (- cross a b p) * (fst q - fst a)"
  by (simp add: cross_def algebra_simps)

lemma id4_y: "cross a p q * (snd b - snd a) = cross a b q * (snd p - snd a) + (- cross a b p) * (snd q - snd a)"
  by (simp add: cross_def algebra_simps)

lemma cross_same1: "cross a a b = 0"
  by (simp add: cross_def)

lemma cross_same2: "cross a b b = 0"
  by (simp add: cross_def)

lemma cross_same3: "cross a b a = 0"
  by (simp add: cross_def)

lemma old_edge_sees_new:
  assumes "0 < cross a b c" and "a \<le> b" and "b \<le> c" and "b \<le> d" and "0 \<le> cross b c d"
  shows "0 \<le> cross a b d"
proof -
  have "b \<noteq> c" using assms(1) by (auto simp: cross_same2)
  then have nz: "(fst c - fst b, snd c - snd b) \<noteq> (0, 0)" by (rule neq_diff)
  have m1: "0 \<le> cross a b c" using assms(1) by simp
  show ?thesis
    by (rule lex_comb[OF id1_x id1_y m1 assms(5) le_lexnn[OF assms(4)] le_lexnn[OF assms(2)]
          le_lexnn[OF assms(3)] nz])
qed

lemma new_edge_sees_left:
  assumes "0 \<le> cross a b q" and "0 < cross a b p" and "a \<le> b" and "q \<le> b" and "b \<le> p"
  shows "0 \<le> cross b p q"
proof -
  have "a \<noteq> b" using assms(2) by (auto simp: cross_same1)
  then have nz: "(fst b - fst a, snd b - snd a) \<noteq> (0, 0)" by (rule neq_diff)
  have m2: "0 \<le> cross a b p" using assms(2) by simp
  show ?thesis
    by (rule lex_comb[OF id2_x id2_y assms(1) m2 le_lexnn[OF assms(5)] le_lexnn[OF assms(4)]
          le_lexnn[OF assms(3)] nz])
qed

lemma pop_keeps_right:
  assumes "cross a b p \<le> 0" and "0 \<le> cross b p q" and "a \<le> b" and "b \<le> q" and "q \<le> p"
  shows "0 \<le> cross a p q"
proof (cases "b = p")
  case True
  with assms(4,5) have "q = p" by simp
  then show ?thesis by (simp add: cross_same2)
next
  case False
  then have nz: "(fst p - fst b, snd p - snd b) \<noteq> (0, 0)" by (rule neq_diff)
  have bp: "b \<le> p" and ap: "a \<le> p" using assms(3,4,5) by auto
  have m1: "0 \<le> - cross a b p" using assms(1) by simp
  show ?thesis
    by (rule lex_comb[OF id3_x id3_y m1 assms(2) le_lexnn[OF assms(5)] le_lexnn[OF ap]
          le_lexnn[OF bp] nz])
qed

lemma pop_keeps_left:
  assumes "cross a b p \<le> 0" and "0 \<le> cross a b q" and "a \<le> q" and "q \<le> b" and "b \<le> p"
  shows "0 \<le> cross a p q"
proof (cases "a = b")
  case True
  with assms(3,4) have "q = a" by simp
  then show ?thesis by (simp add: cross_same3)
next
  case False
  then have nz: "(fst b - fst a, snd b - snd a) \<noteq> (0, 0)" by (rule neq_diff)
  have ab: "a \<le> b" and ap: "a \<le> p" using assms(3,4,5) by auto
  have m2: "0 \<le> - cross a b p" using assms(1) by simp
  show ?thesis
    by (rule lex_comb[OF id4_x id4_y assms(2) m2 le_lexnn[OF ap] le_lexnn[OF assms(3)]
          le_lexnn[OF ab] nz])
qed

subsection \<open>The invariant of the chain\<close>

lemma push_points: "map fst (push st p) = hull_push (map fst st) (fst p)"
  by (induction st p rule: push.induct) auto

lemma foldl_push_points: "map fst (foldl push st xs) = foldl hull_push (map fst st) (map fst xs)"
  by (induction xs arbitrary: st) (simp_all add: push_points)

lemma sorted_rev_Cons: "sorted (rev (x # xs)) \<longleftrightarrow> sorted (rev xs) \<and> (\<forall>y \<in> set xs. y \<le> x)"
  by (auto simp: sorted_append)

lemma above_new:
  "sorted (rev (b # a # rest)) \<Longrightarrow> convex_chain (b # a # rest) \<Longrightarrow> 0 \<le> cross a b p \<Longrightarrow>
   b \<le> p \<Longrightarrow> above_chain (b # a # rest) p"
proof (induction rest arbitrary: a b)
  case Nil
  then show ?case by simp
next
  case (Cons a' rest)
  from Cons.prems(1) have ab: "a \<le> b" and a'a: "a' \<le> a"
    and srt: "sorted (rev (a # a' # rest))"
    by (auto simp: sorted_append)
  from Cons.prems(2) have turn: "0 < cross a' a b" and cvx: "convex_chain (a # a' # rest)"
    by simp_all
  have ap: "a \<le> p" using ab Cons.prems(4) by simp
  have "0 \<le> cross a' a p"
    using turn a'a ab ap Cons.prems(3) by (rule old_edge_sees_new)
  then have "above_chain (a # a' # rest) p"
    using srt cvx ap by (intro Cons.IH)
  with Cons.prems(3) show ?case by simp
qed

lemma convex_chain_tl: "convex_chain (b # st) \<Longrightarrow> convex_chain st"
  by (cases st rule: convex_chain.cases) auto

lemma push_inv:
  "chain_ok P st \<Longrightarrow> (\<forall>q \<in> P. q \<le> p) \<Longrightarrow> hd st \<le> p \<Longrightarrow>
   (\<forall>q \<in> P. hd st \<le> q \<longrightarrow> 0 \<le> cross (hd st) p q) \<Longrightarrow>
   chain_ok (insert p P) (hull_push st p)"
proof (induction st)
  case Nil
  then show ?case by (simp add: chain_ok_def)
next
  case (Cons b st')
  note ok = Cons.prems(1) and ub = Cons.prems(2) and IH = Cons.IH
  have bp: "b \<le> p" using Cons.prems(3) by simp
  have J: "0 \<le> cross b p q" if "q \<in> P" "b \<le> q" for q
    using Cons.prems(4) that by simp
  show ?case
  proof (cases st')
    case Nil
    have bottom: "b \<le> q" if "q \<in> P" for q
      using ok that by (simp add: chain_ok_def Nil)
    have "0 \<le> cross b p q" if "q \<in> insert p P" for q
    proof (cases "q = p")
      case True
      then show ?thesis by (simp add: cross_same2)
    next
      case False
      with that have "q \<in> P" by simp
      then show ?thesis using J bottom by simp
    qed
    then have "above_chain [p, b] q" if "q \<in> insert p P" for q
      using that by simp
    then show ?thesis
      using bp bottom by (simp add: chain_ok_def Nil)
  next
    case (Cons a rest)
    from ok have srt: "sorted (rev (b # a # rest))" and cvx: "convex_chain (b # a # rest)"
      and above: "\<And>q. q \<in> P \<Longrightarrow> above_chain (b # a # rest) q"
      and bottom: "\<And>q. q \<in> P \<Longrightarrow> last (a # rest) \<le> q"
      by (simp_all add: chain_ok_def Cons)
    from srt have ab: "a \<le> b" and srt': "sorted (rev (a # rest))"
      and below_b: "\<And>y. y \<in> set (a # rest) \<Longrightarrow> y \<le> b"
      by (auto simp: sorted_append)
    have edge: "0 \<le> cross a b q" if "q \<in> P" for q
      using above[OF that] by simp
    show ?thesis
    proof (cases "cross a b p \<le> 0")
      case True
      have above': "above_chain (a # rest) q" if "q \<in> P" for q
        using above[OF that] by simp
      have ok': "chain_ok P (a # rest)"
        using srt' convex_chain_tl[OF cvx] above' bottom
        by (simp add: chain_ok_def del: above_chain.simps convex_chain.simps last.simps)
      have ap: "a \<le> p" using ab bp by simp
      have J': "0 \<le> cross a p q" if q: "q \<in> P" and aq: "a \<le> q" for q
      proof (cases "b \<le> q")
        case True
        have "q \<le> p" using ub q by simp
        with \<open>cross a b p \<le> 0\<close> J[OF q True] ab True show ?thesis
          by (rule pop_keeps_right)
      next
        case False
        then have "q \<le> b" by simp
        with \<open>cross a b p \<le> 0\<close> edge[OF q] aq show ?thesis
          using bp by (rule pop_keeps_left)
      qed
      have "chain_ok (insert p P) (hull_push st' p)"
      proof (rule IH)
        show "chain_ok P st'" using ok' by (simp add: Cons)
        show "\<forall>q \<in> P. q \<le> p" by (rule ub)
        show "hd st' \<le> p" using ap by (simp add: Cons)
        show "\<forall>q \<in> P. hd st' \<le> q \<longrightarrow> 0 \<le> cross (hd st') p q"
          using J' by (simp add: Cons)
      qed
      then have "chain_ok (insert p P) (hull_push (a # rest) p)"
        by (simp add: Cons)
      with True show ?thesis by (simp add: Cons)
    next
      case False
      then have turn: "0 < cross a b p" by simp
      have "y \<le> p" if "y \<in> set (b # a # rest)" for y
      proof (cases "y = b")
        case True
        then show ?thesis using bp by simp
      next
        case False
        with that have "y \<le> b" using below_b by simp
        then show ?thesis using bp by (rule order_trans)
      qed
      then have s: "sorted (rev (p # b # a # rest))"
        using srt unfolding sorted_rev_Cons[of p] by blast
      have c: "convex_chain (p # b # a # rest)"
        using turn cvx by simp
      have newp: "above_chain (b # a # rest) p"
        using srt cvx _ bp by (rule above_new) (use turn in simp)
      have a1: "above_chain (p # b # a # rest) q" if q: "q \<in> insert p P" for q
      proof (cases "q = p")
        case True
        then show ?thesis using newp by (simp add: cross_same2)
      next
        case False
        with q have qP: "q \<in> P" by simp
        have "0 \<le> cross b p q"
        proof (cases "b \<le> q")
          case True
          then show ?thesis using J qP by simp
        next
          case False
          then have "q \<le> b" by simp
          with edge[OF qP] turn ab show ?thesis
            using bp by (rule new_edge_sees_left)
        qed
        then show ?thesis using above[OF qP] by simp
      qed
      have lastb: "last (a # rest) \<le> b"
        by (rule below_b) simp
      have b1: "last (p # b # a # rest) \<le> q" if "q \<in> insert p P" for q
      proof (cases "q = p")
        case True
        have "last (a # rest) \<le> p" using lastb bp by (rule order_trans)
        then show ?thesis using True by simp
      next
        case False
        with that have "q \<in> P" by simp
        then show ?thesis using bottom by simp
      qed
      show ?thesis
        using False s c a1 b1 by (simp add: chain_ok_def Cons)
    qed
  qed
qed

lemma hd_hull_push: "hd (hull_push st p) = p"
  by (induction st p rule: hull_push.induct) auto

lemma last_hull_push: "st \<noteq> [] \<Longrightarrow> last (hull_push st p) = last st"
  by (induction st p rule: hull_push.induct) auto

lemma length_hull_push: "st \<noteq> [] \<Longrightarrow> 2 \<le> length (hull_push st p)"
  by (induction st p rule: hull_push.induct) auto

lemma fold_inv:
  "sorted (m # xs) \<Longrightarrow> chain_ok P st \<Longrightarrow> hd st = m \<Longrightarrow> (\<forall>q \<in> P. q \<le> m) \<Longrightarrow>
   chain_ok (P \<union> set xs) (foldl hull_push st xs)"
proof (induction xs arbitrary: m P st)
  case Nil
  then show ?case by simp
next
  case (Cons x xs)
  from Cons.prems(1) have mx: "m \<le> x" and srt: "sorted (x # xs)" by simp_all
  have ub: "\<forall>q \<in> P. q \<le> x"
    using Cons.prems(4) mx by (auto intro: order_trans)
  have J: "\<forall>q \<in> P. hd st \<le> q \<longrightarrow> 0 \<le> cross (hd st) x q"
  proof (intro ballI impI)
    fix q assume "q \<in> P" "hd st \<le> q"
    then have "q = m" using Cons.prems(3,4) by (simp add: order_antisym)
    then show "0 \<le> cross (hd st) x q" using Cons.prems(3) by (simp add: cross_same3)
  qed
  have ok: "chain_ok (insert x P) (hull_push st x)"
    using Cons.prems(2) ub _ J by (rule push_inv) (use Cons.prems(3) mx in simp)
  have "chain_ok (insert x P \<union> set xs) (foldl hull_push (hull_push st x) xs)"
    using srt ok hd_hull_push
  proof (rule Cons.IH)
    show "\<forall>q \<in> insert x P. q \<le> x" using ub by simp
  qed
  then show ?case by simp
qed

lemma lower_chain_above:
  assumes "sorted S" "q \<in> set S"
  shows "above_chain (foldl hull_push [] S) q"
proof (cases S)
  case Nil
  with assms show ?thesis by simp
next
  case (Cons x xs)
  have "chain_ok {x} [x]" by (simp add: chain_ok_def)
  with assms(1) have "chain_ok ({x} \<union> set xs) (foldl hull_push [x] xs)"
    unfolding Cons by (rule fold_inv) simp_all
  with assms(2) show ?thesis by (auto simp: chain_ok_def Cons)
qed

lemma hd_foldl_hull_push: "xs \<noteq> [] \<Longrightarrow> hd (foldl hull_push st xs) = last xs"
  by (induction xs arbitrary: st) (auto simp: hd_hull_push)

lemma hull_push_not_Nil: "hull_push st p \<noteq> []"
  by (induction st p rule: hull_push.induct) auto

lemma last_foldl_hull_push: "st \<noteq> [] \<Longrightarrow> last (foldl hull_push st xs) = last st"
  by (induction xs arbitrary: st) (simp_all add: last_hull_push hull_push_not_Nil)

lemma last_foldl_hull_push_Nil: "xs \<noteq> [] \<Longrightarrow> last (foldl hull_push [] xs) = hd xs"
  by (cases xs) (simp_all add: last_foldl_hull_push)

lemma length_foldl_hull_push:
  "xs \<noteq> [] \<Longrightarrow> st \<noteq> [] \<Longrightarrow> 2 \<le> length (foldl hull_push st xs)"
proof (induction xs arbitrary: st)
  case Nil
  then show ?case by simp
next
  case (Cons x xs)
  show ?case
  proof (cases "xs = []")
    case True
    then show ?thesis using Cons.prems(2) by (simp add: length_hull_push)
  next
    case False
    then show ?thesis using Cons.IH[of "hull_push st x"] by (simp add: hull_push_not_Nil)
  qed
qed

lemma length_foldl_hull_push_Nil:
  "2 \<le> length xs \<Longrightarrow> 2 \<le> length (foldl hull_push [] xs)"
proof (cases xs)
  case Nil
  assume "2 \<le> length xs"
  with Nil show ?thesis by simp
next
  case (Cons x ys)
  assume "2 \<le> length xs"
  with Cons have "ys \<noteq> []" by auto
  then show ?thesis using length_foldl_hull_push[of ys "[x]"] by (simp add: Cons)
qed

lemma cross_mirror: "cross (mirror a) (mirror b) (mirror c) = cross a b c"
  by (simp add: cross_def mirror_def algebra_simps)

lemma hull_push_mirror: "hull_push (map mirror st) (mirror p) = map mirror (hull_push st p)"
  by (induction st p rule: hull_push.induct) (auto simp: cross_mirror)

lemma foldl_hull_push_mirror:
  "foldl hull_push (map mirror st) (map mirror xs) = map mirror (foldl hull_push st xs)"
  by (induction xs arbitrary: st) (simp_all add: hull_push_mirror)

lemma above_chain_mirror: "above_chain (map mirror st) (mirror q) = above_chain st q"
  by (induction st q rule: above_chain.induct) (auto simp: cross_mirror)

lemma mirror_mono: "a \<le> b \<Longrightarrow> mirror b \<le> mirror a"
  by (auto simp: mirror_def less_eq_prod_def less_prod_def)

lemma sorted_neg_rev: "sorted S \<Longrightarrow> sorted (map mirror (rev S))"
  by (induction S) (auto simp: sorted_append mirror_mono)

lemma upper_chain_above:
  assumes "sorted S" "q \<in> set S"
  shows "above_chain (foldl hull_push [] (rev S)) q"
proof -
  have "above_chain (foldl hull_push [] (map mirror (rev S))) (mirror q)"
    using sorted_neg_rev[OF assms(1)] by (rule lower_chain_above) (use assms(2) in simp)
  then have "above_chain (map mirror (foldl hull_push [] (rev S))) (mirror q)"
    using foldl_hull_push_mirror[of "[]" "rev S"] by simp
  then show ?thesis by (simp only: above_chain_mirror)
qed

subsection \<open>The edges of the polygon\<close>

text \<open>
  The polygon is the lower chain followed by the upper chain, each without its last
  point: each of its edges is an edge of one of the two chains.
\<close>

lemma above_chain_edge:
  "above_chain st q \<Longrightarrow> (b, a) \<in> set (zip st (tl st)) \<Longrightarrow> 0 \<le> cross a b q"
  by (induction st q rule: above_chain.induct) auto

lemma edges_snoc:
  "ys \<noteq> [] \<Longrightarrow> zip (ys @ [x]) (tl (ys @ [x])) = zip ys (tl ys) @ [(last ys, x)]"
proof (induction ys)
  case Nil
  then show ?case by simp
next
  case (Cons y ys)
  show ?case
  proof (cases ys)
    case Nil
    then show ?thesis by simp
  next
    case (Cons z zs)
    then show ?thesis using Cons.IH by simp
  qed
qed

lemma edges_rev:
  "(a, b) \<in> set (zip (rev xs) (tl (rev xs))) \<longleftrightarrow> (b, a) \<in> set (zip xs (tl xs))"
proof (induction xs)
  case Nil
  then show ?case by simp
next
  case (Cons x xs)
  show ?case
  proof (cases xs)
    case Nil
    then show ?thesis by simp
  next
    case (Cons y ys)
    then have ne: "rev xs \<noteq> []" by simp
    have "last (rev xs) = y" by (simp add: Cons)
    then have "set (zip (rev (x # xs)) (tl (rev (x # xs)))) =
        insert (y, x) (set (zip (rev xs) (tl (rev xs))))"
      using edges_snoc[OF ne, of x] by simp
    moreover have "set (zip (x # xs) (tl (x # xs))) = insert (x, y) (set (zip xs (tl xs)))"
      by (simp add: Cons)
    ultimately show ?thesis using Cons.IH by auto
  qed
qed

lemma zip_drop_tail: "length ys \<le> length xs \<Longrightarrow> zip (xs @ zs) ys = zip xs ys"
  by (simp add: zip_append1)

lemma two_ends:
  assumes "2 \<le> length A"
  obtains X where "A = hd A # X @ [last A]"
proof -
  from assms have "A \<noteq> []" and "tl A \<noteq> []"
    by (cases A; auto)+
  then have "A = hd A # butlast (tl A) @ [last A]"
    by (metis append_butlast_last_id hd_Cons_tl last_tl)
  then show ?thesis by (rule that)
qed

lemma cyclic_edges:
  assumes "2 \<le> length A" "2 \<le> length B" "last A = hd B" "last B = hd A"
  shows "set (zip (butlast A @ butlast B) (rotate1 (butlast A @ butlast B))) \<subseteq>
         set (zip A (tl A)) \<union> set (zip B (tl B))"
proof -
  obtain X where A: "A = hd A # X @ [last A]" using assms(1) by (rule two_ends)
  obtain Y where B: "B = hd B # Y @ [last B]" using assms(2) by (rule two_ends)
  define w z where "w = hd A" and "z = last A"
  have A': "A = w # X @ [z]" using A by (simp add: w_def z_def)
  have B': "B = z # Y @ [w]" using B assms(3,4) by (simp add: w_def z_def)
  have H: "butlast A @ butlast B = (w # X) @ (z # Y)"
    by (simp add: A' B' butlast_append)
  have R: "rotate1 (butlast A @ butlast B) = (X @ [z]) @ (Y @ [w])"
    by (simp add: A' B' butlast_append)
  have "zip (butlast A @ butlast B) (rotate1 (butlast A @ butlast B)) =
        zip ((w # X) @ (z # Y)) ((X @ [z]) @ (Y @ [w]))"
    by (simp only: R) (simp only: H)
  also have "\<dots> = zip (w # X) (X @ [z]) @ zip (z # Y) (Y @ [w])"
    by (rule zip_append) simp
  finally have "zip (butlast A @ butlast B) (rotate1 (butlast A @ butlast B)) =
        zip (w # X) (X @ [z]) @ zip (z # Y) (Y @ [w])" .
  moreover have "zip A (tl A) = zip (w # X) (X @ [z])"
    using zip_drop_tail[of "X @ [z]" "w # X" "[z]"] by (simp add: A')
  moreover have "zip B (tl B) = zip (z # Y) (Y @ [w])"
    using zip_drop_tail[of "Y @ [w]" "z # Y" "[w]"] by (simp add: B')
  ultimately show ?thesis by simp
qed

lemma chain_points:
  "map fst (chain xs) = butlast (rev (foldl hull_push [] (map fst xs)))"
proof -
  have "map fst (chain xs) = rev (tl (map fst (foldl push [] xs)))"
    unfolding chain_def butlast_rev by (metis map_tl rev_map)
  then show ?thesis by (simp add: foldl_push_points butlast_rev)
qed

lemma foldl_hull_push_short: "length xs < 2 \<Longrightarrow> tl (foldl hull_push [] xs) = []"
proof -
  assume "length xs < 2"
  then consider "xs = []" | x where "xs = [x]"
    by (cases xs; cases "tl xs") auto
  then show ?thesis by cases simp_all
qed

lemma hull_edge_sees_point:
  assumes q: "q \<in> set rs"
    and e: "(a, b) \<in> set (zip (map (\<lambda>i. rs ! i) (monotone_chain rs))
                              (rotate1 (map (\<lambda>i. rs ! i) (monotone_chain rs))))"
  shows "0 \<le> cross a b q"
proof -
  define S where "S = sort rs"
  define L where "L = foldl hull_push [] S"
  define U where "U = foldl hull_push [] (rev S)"
  have srt: "sorted S" and qS: "q \<in> set S" using q by (simp_all add: S_def)
  have H: "map (\<lambda>i. rs ! i) (monotone_chain rs) = butlast (rev L) @ butlast (rev U)"
    unfolding monotone_chain_points map_append chain_points rev_map[symmetric] map_fst_sort_zip
    by (simp add: L_def U_def S_def rev_map)
  show ?thesis
  proof (cases "length S < 2")
    case True
    then have "butlast (rev L) = []" "butlast (rev U) = []"
      unfolding L_def U_def by (simp_all add: foldl_hull_push_short)
    with e show ?thesis unfolding H by simp
  next
    case False
    then have len: "2 \<le> length S" and ne: "S \<noteq> []" by auto
    have lenL: "2 \<le> length (rev L)"
      using length_foldl_hull_push_Nil[OF len] by (simp add: L_def)
    have lenU: "2 \<le> length (rev U)"
      using length_foldl_hull_push_Nil[of "rev S"] len by (simp add: U_def)
    have L0: "L \<noteq> []" and U0: "U \<noteq> []" using lenL lenU by auto
    have "last (rev L) = last S"
      using hd_foldl_hull_push[OF ne, of "[]"] L0 by (simp add: L_def last_rev)
    moreover have "hd (rev U) = last S"
      using last_foldl_hull_push_Nil[of "rev S"] ne U0 by (simp add: U_def hd_rev last_rev)
    ultimately have j1: "last (rev L) = hd (rev U)" by simp
    have "last (rev U) = hd S"
      using hd_foldl_hull_push[of "rev S" "[]"] ne U0 by (simp add: U_def last_rev hd_rev)
    moreover have "hd (rev L) = hd S"
      using last_foldl_hull_push_Nil[OF ne] L0 by (simp add: L_def hd_rev)
    ultimately have j2: "last (rev U) = hd (rev L)" by simp
    from e have "(a, b) \<in> set (zip (rev L) (tl (rev L))) \<union> set (zip (rev U) (tl (rev U)))"
      unfolding H using cyclic_edges[OF lenL lenU j1 j2] by blast
    then have "(b, a) \<in> set (zip L (tl L)) \<or> (b, a) \<in> set (zip U (tl U))"
      by (simp only: Un_iff edges_rev)
    then show ?thesis
    proof
      assume "(b, a) \<in> set (zip L (tl L))"
      with lower_chain_above[OF srt qS] show ?thesis
        unfolding L_def by (rule above_chain_edge)
    next
      assume "(b, a) \<in> set (zip U (tl U))"
      with upper_chain_above[OF srt qS] show ?thesis
        unfolding U_def by (rule above_chain_edge)
    qed
  qed
qed

lemma those_finite:
  "those (map finite_pt (map (\<lambda>r. (Finite (fst r), Finite (snd r))) H)) = Some H"
  by (induction H) simp_all

lemma spec_hull_contains:
  assumes vs: "spec_ConvexHull pts = Some vs" and p: "p \<in> set pts"
  shows "list_all (\<lambda>i. i < length pts) vs \<and> within_hull (map (\<lambda>i. pts ! i) vs) p"
proof -
  define rs where "rs = map (\<lambda>x. the (finite_pt x)) pts"
  define H where "H = map (\<lambda>i. rs ! i) (monotone_chain rs)"
  have fin: "list_all (\<lambda>x. finite_pt x \<noteq> None) pts"
    using vs by (auto simp: spec_ConvexHull_def those_map split: if_splits)
  then have those: "those (map finite_pt pts) = Some rs"
    by (simp only: those_map rs_def if_True)
  from vs have vs_eq: "vs = monotone_chain rs" and len: "3 \<le> length vs"
    by (auto simp: spec_ConvexHull_def those Let_def split: if_splits)
  have lrs: "length rs = length pts" by (simp add: rs_def)
  have range: "list_all (\<lambda>i. i < length pts) vs"
    using monotone_chain_range[of rs] by (simp add: vs_eq lrs)
  have pt: "pts ! i = (Finite (fst (rs ! i)), Finite (snd (rs ! i)))" if "i < length pts" for i
  proof -
    have "finite_pt (pts ! i) \<noteq> None"
      using fin that by (simp add: list_all_length)
    then show ?thesis
      using finite_pt_Some[of "pts ! i"] that by (simp add: rs_def)
  qed
  have verts: "map (\<lambda>i. pts ! i) vs = map (\<lambda>r. (Finite (fst r), Finite (snd r))) H"
    using range pt by (simp add: list_all_iff H_def vs_eq)
  define q where "q = the (finite_pt p)"
  have "finite_pt p \<noteq> None" using fin p by (simp add: list_all_iff)
  then have fp: "finite_pt p = Some q" by (auto simp: q_def)
  have qrs: "q \<in> set rs" using p by (auto simp: rs_def q_def)
  have edges: "list_all (\<lambda>(a, b). 0 \<le> cross a b q) (zip H (rotate1 H))"
    unfolding list_all_iff H_def using hull_edge_sees_point[OF qrs] by auto
  have "length H = length vs" by (simp add: H_def vs_eq)
  with len edges have "within_hull (map (\<lambda>i. pts ! i) vs) p"
    unfolding within_hull_def verts those_finite fp by simp
  with range show ?thesis by simp
qed

lemma region_of_cluster:
  assumes "0 \<le> cl" and "members data cl \<noteq> []"
    and "ConvexHull lib (members data cl) = Some vs"
    and "list_all (\<lambda>i. i < length (members data cl)) vs"
  shows "NdArray (map (\<lambda>i. members data cl ! i) vs) \<in> set (regions lib data)"
proof -
  from assms(2) have "cl \<in> snd ` set data"
    by (auto simp: members_def filter_empty_conv)
  with assms(1) have "cl \<in> set (filter (\<lambda>c. 0 \<le> c) (sort (remdups (map snd data))))"
    by simp
  moreover have "try_hull lib (Some (members data cl)) = [NdArray (map (\<lambda>i. members data cl ! i) vs)]"
    using assms(3,4) by (simp add: try_hull_def)
  ultimately show ?thesis
    unfolding regions_eq by (auto intro!: bexI[of _ cl])
qed

section \<open>The notebook on the example library\<close>

lemma spec_clusters_22:
  "clusters spec_lib 22 260 = Inr (map (\<lambda>p. (p, 0)) triangle_history)"
  by (simp add: spec_lib_def example_store_def triangle_history_def clusters_def
      spec_DBSCAN_fit_def dbscan_def is_core_def within_eps_def label_of_def component_def
      expand_def power2_eq_square Let_def)

lemma spec_regions_22:
  "regions spec_lib (map (\<lambda>p. (p, 0)) triangle_history) = [NdArray triangle_region]"
  by (simp add: regions_eq try_hull_def members_def spec_lib_def triangle_history_def
      triangle_region_def spec_ConvexHull_def monotone_chain_def chain_def cross_def Let_def)

lemma spec_regions_example:
  "regions spec_lib example_data = [NdArray triangle_region]"
  by (simp add: regions_eq try_hull_def members_def spec_lib_def example_data_def
      triangle_region_def spec_ConvexHull_def monotone_chain_def chain_def cross_def Let_def)

lemma spec_in_hull_inside:
  "in_hull spec_lib (Finite 0.00003, Finite 0.00003) (NdArray triangle_region) = Inr True"
  by (simp add: in_hull_def spec_lib_def triangle_region_def spec_Delaunay_def
      spec_find_simplex_def cross_def Let_def)


lemma spec_in_hull_NaN:
  "in_hull spec_lib (NaN, Finite 0) (NdArray triangle_region) = Inr False"
  by (simp add: in_hull_def spec_lib_def triangle_region_def spec_Delaunay_def
      spec_find_simplex_def cross_def Let_def)

lemma spec_in_hull_PosInf:
  "in_hull spec_lib (PosInf, NaN) (NdArray triangle_region) = Inr False"
  by (simp add: in_hull_def spec_lib_def triangle_region_def spec_Delaunay_def
      spec_find_simplex_def cross_def Let_def)

lemma joggled_few: "length pts < 3 \<Longrightarrow> joggled_ConvexHull pts = None"
  by (simp add: joggled_ConvexHull_def spec_ConvexHull_few)

lemma joggle_regions_example:
  "regions joggle_lib example_data = [NdArray triangle_region, NdArray collinear_region]"
  by (simp add: regions_eq try_hull_def members_def joggle_lib_def spec_lib_def example_data_def
      triangle_region_def collinear_region_def joggled_ConvexHull_def spec_ConvexHull_def
      monotone_chain_def chain_def cross_def Let_def del: not_None_eq)

lemma joggle_regions_example_without:
  "regions joggle_lib (filter (\<lambda>r. snd r \<noteq> 1) example_data) = [NdArray triangle_region]"
  by (simp add: regions_eq try_hull_def members_def joggle_lib_def spec_lib_def example_data_def
      triangle_region_def joggled_ConvexHull_def spec_ConvexHull_def
      monotone_chain_def chain_def cross_def Let_def)

lemma joggle_regions_pair:
  "regions joggle_lib pair_data = [NdArray triangle_region]"
  by (simp add: regions_eq try_hull_def members_def joggle_lib_def spec_lib_def pair_data_def
      triangle_region_def joggled_ConvexHull_def spec_ConvexHull_def
      monotone_chain_def chain_def cross_def Let_def)

lemma spec_alert_22_inside:
  "location_alert spec_lib 22 (Finite 0.00003) (Finite 0.00003) = Inr False"
  using spec_in_hull_inside by (simp add: location_alert_eq spec_clusters_22 spec_regions_22)

lemma spec_hull_example:
  "spec_ConvexHull (members example_data 0) = Some [0, 2, 1]"
  by (simp add: members_def example_data_def spec_ConvexHull_def monotone_chain_def chain_def
      cross_def Let_def)

lemma joggled_hull_example:
  "ConvexHull joggle_lib (members example_data 0) = Some [0, 2, 1]"
  by (simp add: joggle_lib_def spec_lib_def joggled_ConvexHull_def spec_hull_example)

lemma within_hull_outside: "\<not> within_hull triangle_region (Finite 10, Finite 10)"
  by (simp add: within_hull_def triangle_region_def cross_def)

lemma within_hull_NaN: "\<not> within_hull triangle_region (NaN, Finite 0)"
  by (simp add: within_hull_def triangle_region_def)

section \<open>The claims\<close>



text \<open>
  C2 (as the code has it). With the clusterer of the specification behind the validation
  of \<^verbatim>\<open>fit\<close>, a user whose fetched history has one or two points, with finite
  coordinates, gets the label NOISE for every point, no Region, and the Verdict true for
  every query point; no error is raised.
\<close>

theorem insufficient_history_alerts:
  assumes "session_execute lib uid = Inr rows" and "rows \<noteq> []" and "length rows < 3"
    and "list_all (\<lambda>p. finite_pt p \<noteq> None) rows"
    and "DBSCAN_fit lib = validating_DBSCAN_fit"
  shows "clusters lib uid 260 = Inr (map (\<lambda>p. (p, - 1)) rows) \<and>
         regions lib (map (\<lambda>p. (p, - 1)) rows) = [] \<and>
         location_alert lib uid lon lat = Inr True"
proof -
  have "dbscan (within_eps (260 / 111034.61)) 3 rows = map (\<lambda>p. - 1) rows"
    using assms(3) by (rule dbscan_few)
  then have data: "clusters lib uid 260 = Inr (map (\<lambda>p. (p, - 1)) rows)"
    using clusters_validating[OF assms(1) assms(5) assms(2) _ assms(4), of 260]
    by (simp add: zip_map2 zip_same_conv_map)
  have noise: "list_all (\<lambda>r. snd r < 0) (map (\<lambda>p. (p, - 1 :: int)) rows)"
    by (simp add: list_all_iff)
  show ?thesis
    using data regions_no_cluster[OF noise] location_alert_no_cluster[OF data noise] by simp
qed

theorem insufficient_history_alerts_witness:
  "location_alert checked_lib 1 (Finite 3) (Finite 4) = Inr True \<and>
   clusters checked_lib 1 260 = Inr [((Finite 3, Finite 4), - 1)] \<and>
   regions checked_lib [((Finite 3, Finite 4), - 1)] = []"
proof -
  have one: "session_execute checked_lib 1 = Inr [(Finite 3, Finite 4)]"
    and fit: "DBSCAN_fit checked_lib = validating_DBSCAN_fit"
    by (simp_all add: checked_lib_def spec_lib_def example_store_def)
  show ?thesis
    using insufficient_history_alerts[OF one _ _ _ fit, of "Finite 3" "Finite 4"]
    by simp
qed

text \<open>
  C2 (as the spec has it) fails for the empty history, which the claim names: user 0 has
  no point, the clusterer rejects the empty frame, and \<^verbatim>\<open>location_alert\<close> raises
  \<^verbatim>\<open>ValueError\<close> instead of returning true.
\<close>

theorem empty_history_counterexample:
  "session_execute checked_lib 0 = Inr [] \<and>
   location_alert checked_lib 0 (Finite 3) (Finite 4) = Inl ValueError"
proof -
  have none: "session_execute checked_lib 0 = Inr []"
    and fit: "DBSCAN_fit checked_lib = validating_DBSCAN_fit"
    by (simp_all add: checked_lib_def spec_lib_def example_store_def)
  then show ?thesis
    by (simp add: location_alert_def clusters_empty_history)
qed

text \<open>
  C3 (as the code has it). With the clusterer of the specification behind the validation
  of \<^verbatim>\<open>fit\<close>, \<^verbatim>\<open>clusters\<close> returns for every fetched point set that is not empty
  and has finite coordinates (and for a positive radius), and what it returns is a
  complete labelling: the frame has the input points in their order, each with one label,
  which is a cluster id (\<open>\<ge> 0\<close>) or NOISE (\<open>-1\<close>).
\<close>

theorem clusters_complete_labeling:
  assumes "session_execute lib uid = Inr rows" and "rows \<noteq> []" and "0 < radius"
    and "list_all (\<lambda>p. finite_pt p \<noteq> None) rows"
    and "DBSCAN_fit lib = validating_DBSCAN_fit"
  shows "\<exists>labels. clusters lib uid radius = Inr (zip rows labels) \<and>
           length labels = length rows \<and>
           map fst (zip rows labels) = rows \<and>
           list_all (\<lambda>l. l = - 1 \<or> 0 \<le> l) labels"
proof -
  define labels where "labels = dbscan (within_eps (radius / 111034.61)) 3 rows"
  have res: "clusters lib uid radius = Inr (zip rows labels)"
    using clusters_validating[OF assms(1) assms(5) assms(2) assms(3) assms(4)]
    by (simp add: labels_def)
  have len: "length labels = length rows"
    by (simp add: labels_def dbscan_length)
  have "list_all (\<lambda>l. - 1 \<le> l) labels"
    by (simp add: labels_def dbscan_range)
  then have rng: "list_all (\<lambda>l. l = - 1 \<or> 0 \<le> l) labels"
    by (auto simp: list_all_iff)
  have "map fst (zip rows labels) = rows"
    using len by simp
  then show ?thesis
    using res len rng by blast
qed

theorem clusters_complete_labeling_witness:
  "\<exists>labels. clusters checked_lib 22 260 = Inr (zip triangle_history labels) \<and>
      length labels = length triangle_history \<and>
      map fst (zip triangle_history labels) = triangle_history \<and>
      list_all (\<lambda>l. l = - 1 \<or> 0 \<le> l) labels"
proof -
  have rows: "session_execute checked_lib 22 = Inr triangle_history"
    and fit: "DBSCAN_fit checked_lib = validating_DBSCAN_fit"
    by (simp_all add: checked_lib_def spec_lib_def example_store_def)
  have ne: "triangle_history \<noteq> []" and pos: "(0::real) < 260"
    and fin: "list_all (\<lambda>p. finite_pt p \<noteq> None) triangle_history"
    by (simp_all add: triangle_history_def del: not_None_eq)
  show ?thesis
    by (rule clusters_complete_labeling[OF rows ne pos fin fit])
qed

text \<open>
  C3 (as the spec has it) fails for the empty input, which the claim names: for user 0
  \<^verbatim>\<open>clusters\<close> raises \<^verbatim>\<open>ValueError\<close> instead of returning an empty labelling.
\<close>

theorem empty_input_counterexample:
  "session_execute checked_lib 0 = Inr [] \<and> clusters checked_lib 0 260 = Inl ValueError"
proof -
  have none: "session_execute checked_lib 0 = Inr []"
    and fit: "DBSCAN_fit checked_lib = validating_DBSCAN_fit"
    by (simp_all add: checked_lib_def spec_lib_def example_store_def)
  then show ?thesis
    by (simp add: clusters_empty_history)
qed

text \<open>
  C4 (as the code has it). \<^verbatim>\<open>location_alert\<close> does not validate the query
  coordinates: whenever the clustering of the user's history returns, it returns a boolean
  Verdict for every longitude and latitude, finite or not.
\<close>

theorem location_alert_no_validation:
  assumes "clusters lib uid 260 = Inr data"
  shows "\<exists>b. location_alert lib uid lon lat = Inr b"
  using assms by (simp add: location_alert_eq)

theorem location_alert_no_validation_witness:
  "clusters spec_lib 22 260 = Inr (map (\<lambda>p. (p, 0)) triangle_history) \<and>
   (\<exists>b. location_alert spec_lib 22 PosInf NaN = Inr b) \<and>
   location_alert spec_lib 22 PosInf NaN = Inr True"
  using location_alert_no_validation[OF spec_clusters_22, of PosInf NaN] spec_in_hull_PosInf
  by (simp add: location_alert_eq spec_clusters_22 spec_regions_22)

text \<open>
  C4 (as the spec has it) fails: for user 22 and the query point (NaN, 0) the Verdict
  is the boolean true, not a validation failure.
\<close>

theorem non_finite_query_counterexample:
  "location_alert spec_lib 22 NaN (Finite 0) = Inr True"
  by (simp add: location_alert_eq spec_clusters_22 spec_regions_22 spec_in_hull_NaN)

text \<open>
  C5. Every Region that \<^verbatim>\<open>regions\<close> returns is the hull of the member points of one
  cluster with a label \<open>cl \<ge> 0\<close>: its vertices are the points that the hull routine
  selects among the members of \<open>cl\<close>, so each vertex is the point of a row labelled
  \<open>cl\<close>, and no row labelled NOISE supplies a vertex.
\<close>

theorem regions_are_cluster_hulls:
  assumes "h \<in> set (regions lib data)"
  shows "\<exists>cl vs. 0 \<le> cl \<and> cl \<noteq> - 1 \<and> cl \<in> snd ` set data \<and>
           ConvexHull lib (members data cl) = Some vs \<and>
           h = NdArray (map (\<lambda>i. members data cl ! i) vs) \<and>
           list_all (\<lambda>v. (v, cl) \<in> set data) (map (\<lambda>i. members data cl ! i) vs)"
proof -
  from assms obtain cl where cl: "0 \<le> cl" "cl \<in> snd ` set data"
    and h: "h \<in> set (try_hull lib (Some (members data cl)))"
    by (auto simp: regions_eq)
  from h obtain vs where vs: "ConvexHull lib (members data cl) = Some vs"
    and range: "list_all (\<lambda>i. i < length (members data cl)) vs"
    and eq: "h = NdArray (map (\<lambda>i. members data cl ! i) vs)"
    by (cases "ConvexHull lib (members data cl)") (auto simp: try_hull_def split: if_splits)
  have "(v, cl) \<in> set data" if "v \<in> set (members data cl)" for v
    using that by (auto simp: members_def)
  with range have "list_all (\<lambda>v. (v, cl) \<in> set data) (map (\<lambda>i. members data cl ! i) vs)"
    by (auto simp: list_all_iff)
  with cl vs eq show ?thesis by force
qed

theorem regions_are_cluster_hulls_witness:
  "\<exists>cl vs. 0 \<le> cl \<and> cl \<noteq> - 1 \<and> cl \<in> snd ` set example_data \<and>
     ConvexHull spec_lib (members example_data cl) = Some vs \<and>
     NdArray triangle_region = NdArray (map (\<lambda>i. members example_data cl ! i) vs) \<and>
     list_all (\<lambda>v. (v, cl) \<in> set example_data) (map (\<lambda>i. members example_data cl ! i) vs)"
  using regions_are_cluster_hulls[of "NdArray triangle_region" spec_lib example_data]
  by (simp add: spec_regions_example)

text \<open>
  C6 (as the code has it). A cluster with a label \<open>cl \<ge> 0\<close> on which the hull
  routine raises contributes no Region and raises no error: \<^verbatim>\<open>regions\<close> returns
  what it returns for the frame without the rows of \<open>cl\<close>, so the Regions of the
  remaining clusters are still produced. (With the options \<^verbatim>\<open>'QJ Pp'\<close> the routine
  raises for a cluster of fewer than 3 points, \<open>joggled_few\<close>.)
\<close>

theorem degenerate_cluster_dropped:
  assumes "0 \<le> cl" and "ConvexHull lib (members data cl) = None"
  shows "regions lib data = regions lib (filter (\<lambda>r. snd r \<noteq> cl) data)"
proof -
  define F where "F = (\<lambda>c. try_hull lib (Some (members data c)))"
  define data' where "data' = filter (\<lambda>r. snd r \<noteq> cl) data"
  have "map snd data' = filter (\<lambda>c. c \<noteq> cl) (map snd data)"
    by (simp add: data'_def filter_map comp_def)
  then have labels: "sort (remdups (map snd data')) = filter (\<lambda>c. c \<noteq> cl) (sort (remdups (map snd data)))"
    by (simp add: remdups_filter filter_sort)
  have same: "members data' c = members data c" if "c \<noteq> cl" for c
  proof -
    have "filter (\<lambda>r. snd r = c) (filter (\<lambda>r. snd r \<noteq> cl) data) = filter (\<lambda>r. snd r = c) data"
      using that by (auto intro: filter_cong)
    then show ?thesis by (simp add: members_def data'_def)
  qed
  have drop: "F cl = []"
    using assms(2) by (simp add: F_def try_hull_def)
  have skip: "concat (map F (filter (\<lambda>c. c \<noteq> cl) ls)) = concat (map F ls)" for ls
    using drop by (induction ls) auto
  have "regions lib data' =
      concat (map (\<lambda>c. try_hull lib (Some (members data' c)))
        (filter (\<lambda>c. 0 \<le> c) (filter (\<lambda>c. c \<noteq> cl) (sort (remdups (map snd data))))))"
    by (simp only: regions_eq labels)
  also have "\<dots> = concat (map F (filter (\<lambda>c. c \<noteq> cl) (filter (\<lambda>c. 0 \<le> c) (sort (remdups (map snd data))))))"
  proof -
    define zs where "zs = filter (\<lambda>c. c \<noteq> cl) (filter (\<lambda>c. 0 \<le> c) (sort (remdups (map snd data))))"
    have "map (\<lambda>c. try_hull lib (Some (members data' c))) zs = map F zs"
      using same by (simp add: zs_def F_def)
    moreover have "filter (\<lambda>c. 0 \<le> c) (filter (\<lambda>c. c \<noteq> cl) (sort (remdups (map snd data)))) = zs"
      unfolding zs_def by (simp add: conj_commute)
    ultimately show ?thesis by (simp only: zs_def)
  qed
  also have "\<dots> = concat (map F (filter (\<lambda>c. 0 \<le> c) (sort (remdups (map snd data)))))"
    by (rule skip)
  also have "\<dots> = regions lib data"
    by (simp add: regions_eq F_def)
  finally show ?thesis by (simp add: data'_def)
qed

theorem degenerate_cluster_dropped_witness:
  "length (members pair_data 1) = 2 \<and>
   ConvexHull joggle_lib (members pair_data 1) = None \<and>
   regions joggle_lib pair_data = [NdArray triangle_region] \<and>
   regions joggle_lib (filter (\<lambda>r. snd r \<noteq> 1) pair_data) = [NdArray triangle_region]"
proof -
  have len: "length (members pair_data 1) = 2"
    by (simp add: members_def pair_data_def)
  then have none: "ConvexHull joggle_lib (members pair_data 1) = None"
    by (simp add: joggle_lib_def joggled_few)
  have "regions joggle_lib pair_data = regions joggle_lib (filter (\<lambda>r. snd r \<noteq> 1) pair_data)"
    by (rule degenerate_cluster_dropped[OF _ none]) simp
  with len none show ?thesis by (simp add: joggle_regions_pair)
qed

text \<open>
  C6 (as the spec has it) fails for a cluster of collinear points: cluster 1 of
  \<open>example_data\<close> has three points on one line, the joggled hull routine returns a hull
  for them, and \<^verbatim>\<open>regions\<close> returns a Region for the cluster.
\<close>

theorem collinear_cluster_counterexample:
  "members example_data 1 = collinear_region \<and>
   cross (1, 1) (1.001, 1.001) (1.002, 1.002) = 0 \<and>
   regions joggle_lib example_data = [NdArray triangle_region, NdArray collinear_region] \<and>
   regions joggle_lib (filter (\<lambda>r. snd r \<noteq> 1) example_data) = [NdArray triangle_region]"
  by (simp add: joggle_regions_example joggle_regions_example_without)
    (simp add: members_def example_data_def collinear_region_def cross_def)

text \<open>
  C7. When the triangulation of a Region fails (the constructor of the triangulation
  raises, or the search for the simplex does), \<^verbatim>\<open>in_hull\<close> returns false for that
  Region: it does not raise.
\<close>

theorem in_hull_triangulation_failure:
  assumes "Delaunay lib vertices = None \<or>
           (\<exists>t. Delaunay lib vertices = Some t \<and> find_simplex lib t p = None)"
  shows "in_hull lib p (NdArray vertices) = Inr False"
  using assms by (auto simp: in_hull_def)

theorem in_hull_triangulation_failure_witness:
  "Delaunay spec_lib [(Finite 0, Finite 0), (Finite 1, Finite 1)] = None \<and>
   in_hull spec_lib (Finite 0, Finite 0) (NdArray [(Finite 0, Finite 0), (Finite 1, Finite 1)]) = Inr False"
proof -
  have none: "Delaunay spec_lib [(Finite 0, Finite 0), (Finite 1, Finite 1)] = None"
    by (simp add: spec_lib_def spec_Delaunay_def)
  then show ?thesis
    using in_hull_triangulation_failure[of spec_lib "[(Finite 0, Finite 0), (Finite 1, Finite 1)]" "(Finite 0, Finite 0)"]
    by simp
qed

text \<open>
  C8. For a cluster with a label \<open>cl \<ge> 0\<close> that is not degenerate (the hull routine
  of the specification returns the vertices \<open>vs\<close> for its member points) and for
  which the library's hull routine returns what that routine does (as the joggled one
  does on such a cluster), the polygon of these vertices is a Region that
  \<^verbatim>\<open>regions\<close> returns, and every member point of the cluster lies within or on it:
  on the left of, or on, each of its edges. Coordinates are exact reals here, so no
  tolerance is needed.
\<close>

theorem region_contains_members:
  assumes "ConvexHull lib (members data cl) = spec_ConvexHull (members data cl)"
    and "spec_ConvexHull (members data cl) = Some vs"
    and "0 \<le> cl"
    and "p \<in> set (members data cl)"
  shows "NdArray (map (\<lambda>i. members data cl ! i) vs) \<in> set (regions lib data) \<and>
         within_hull (map (\<lambda>i. members data cl ! i) vs) p"
proof -
  have c: "list_all (\<lambda>i. i < length (members data cl)) vs \<and>
      within_hull (map (\<lambda>i. members data cl ! i) vs) p"
    using assms(2,4) by (rule spec_hull_contains)
  have "members data cl \<noteq> []" using assms(4) by auto
  then have "NdArray (map (\<lambda>i. members data cl ! i) vs) \<in> set (regions lib data)"
    using assms(1,2,3) c by (intro region_of_cluster) simp_all
  with c show ?thesis by simp
qed

theorem region_contains_members_witness:
  "NdArray triangle_region \<in> set (regions joggle_lib example_data) \<and>
   within_hull triangle_region (Finite 0, Finite 0.0001)"
  using region_contains_members[of joggle_lib example_data 0 "[0, 2, 1]" "(Finite 0, Finite 0.0001)"]
    spec_hull_example joggled_hull_example
  by (simp add: members_def example_data_def triangle_region_def)

text \<open>
  C9. With the clusterer of the specification, and hull and triangulation routines that
  do not depend on the order of a cluster's points, the Verdict of \<^verbatim>\<open>location_alert\<close>
  is the same for two histories that are reorderings of each other, for every query
  point. (The clusters are the same sets of points; the values of their labels depend on
  the order.)
\<close>

theorem verdict_order_invariant:
  assumes "session_execute lib uid = Inr rows" and "session_execute lib uid' = Inr rows'"
    and "mset rows' = mset rows"
    and "DBSCAN_fit lib = spec_DBSCAN_fit" and "order_free lib"
  shows "location_alert lib uid' lon lat = location_alert lib uid lon lat"
  using assms by (rule location_alert_perm)

theorem verdict_order_invariant_witness:
  "location_alert spec_lib 23 (Finite 0.00003) (Finite 0.00003) =
     location_alert spec_lib 22 (Finite 0.00003) (Finite 0.00003) \<and>
   location_alert spec_lib 23 (Finite 0.00003) (Finite 0.00003) = Inr False"
proof -
  have rows: "session_execute spec_lib 22 = Inr triangle_history"
    and rows': "session_execute spec_lib 23 = Inr triangle_history_reordered"
    and fit: "DBSCAN_fit spec_lib = spec_DBSCAN_fit"
    by (simp_all add: spec_lib_def example_store_def)
  have perm: "mset triangle_history_reordered = mset triangle_history"
    by (simp add: triangle_history_def triangle_history_reordered_def)
  show ?thesis
    using verdict_order_invariant[OF rows rows' perm fit spec_lib_order_free,
        of "Finite 0.00003" "Finite 0.00003"] spec_alert_22_inside
    by simp
qed

text \<open>
  C10. Every hull that \<^verbatim>\<open>location_alert\<close> passes to \<^verbatim>\<open>in_hull\<close> is an element of
  the list returned by \<^verbatim>\<open>regions\<close>, and every such element is a plain vertex array,
  never a Delaunay instance: the path of \<^verbatim>\<open>in_hull\<close> that reads the unassigned
  \<^verbatim>\<open>res\<close> is not taken, \<^verbatim>\<open>in_hull\<close> returns a boolean, and so does the loop of
  \<^verbatim>\<open>location_alert\<close> over the hulls.
\<close>

theorem in_hull_argument_is_vertex_array:
  assumes "h \<in> set (regions lib data)"
  shows "(\<exists>v. h = NdArray v) \<and> (\<forall>t. h \<noteq> DelaunayObj t) \<and>
         (\<exists>b. in_hull lib p h = Inr b) \<and> in_hull lib p h \<noteq> Inl UnboundLocalError \<and>
         (\<exists>b. alert_loop lib p (regions lib data) False = Inr b)"
proof -
  from assms obtain v where v: "h = NdArray v"
    using regions_NdArray by blast
  moreover obtain b where "in_hull lib p (NdArray v) = Inr b"
    using in_hull_NdArray_defined by blast
  moreover have "\<exists>b. alert_loop lib p (regions lib data) False = Inr b"
    by (simp add: alert_loop_regions)
  ultimately show ?thesis by auto
qed

theorem in_hull_argument_is_vertex_array_witness:
  "in_hull spec_lib (Finite 10, Finite 10) (NdArray triangle_region) \<noteq> Inl UnboundLocalError \<and>
   NdArray triangle_region \<in> set (regions spec_lib (map (\<lambda>p. (p, 0)) triangle_history))"
  using in_hull_argument_is_vertex_array[of "NdArray triangle_region" spec_lib
      "map (\<lambda>p. (p, 0)) triangle_history" "(Finite 10, Finite 10)"]
  by (simp add: spec_regions_22)

end
